theory Spec2Isabelle
  imports Complex_Main "HOL-Library.AList" "HOL-Library.List_Lexorder" "HOL-Library.Char_ord"
begin

section \<open>The Wendy fairness core\<close>

text \<open>
  A shallow embedding of \<^verbatim>\<open>core/core.go\<close>: the \<^verbatim>\<open>Wendy\<close> struct and its methods
  \<^verbatim>\<open>New\<close>, \<^verbatim>\<open>UpdateValidatorSet\<close>, \<^verbatim>\<open>HonestParties\<close>, \<^verbatim>\<open>HonestMajority\<close>, \<^verbatim>\<open>AddTx\<close>,
  \<^verbatim>\<open>AddVote\<close>, \<^verbatim>\<open>CommitBlock\<close>, \<^verbatim>\<open>VoteByTxHash\<close>, \<^verbatim>\<open>hasQuorum\<close>, \<^verbatim>\<open>IsBlockedBy\<close> and
  \<^verbatim>\<open>IsBlocked\<close>. The mutexes only serialise the methods; every method is modelled as
  one atomic step from a state to a state.

  The types \<^verbatim>\<open>Hash\<close>, \<^verbatim>\<open>ID\<close>, \<^verbatim>\<open>Validator\<close>, \<^verbatim>\<open>Tx\<close>, \<^verbatim>\<open>Vote\<close>, \<^verbatim>\<open>Block\<close>, the per-validator
  \<^verbatim>\<open>Sender\<close> with its methods, the constant \<^verbatim>\<open>Quorum\<close>, and the blocking-set
  builder are declared in files of the repository that are not among the given
  sources. The types are taken from their uses in \<^verbatim>\<open>core.go\<close> and in the test file;
  \<^verbatim>\<open>Quorum\<close> is a parameter; the \<^verbatim>\<open>Sender\<close> methods and the blocking-set builder are
  modelled from the specification, each marked as such. What is proved of
  \<^verbatim>\<open>IsBlocked\<close> for every state is proved for any predicate in the place of
  \<^verbatim>\<open>Sender.Seen\<close>.
\<close>

subsection \<open>Value types\<close>

text \<open>
  \<^verbatim>\<open>Hash\<close> is a fixed-width byte array and \<^verbatim>\<open>ID\<close> a byte string, both used as map
  keys and compared bytewise; a \<^verbatim>\<open>Validator\<close> converts to an \<^verbatim>\<open>ID\<close> without loss
  (\<^verbatim>\<open>ID(v)\<close>), so the three are byte strings here. \<^verbatim>\<open>Tx\<close> is an interface with the
  methods \<^verbatim>\<open>Bytes()\<close>, \<^verbatim>\<open>Hash()\<close> and \<^verbatim>\<open>Label()\<close>; a transaction is the record of what
  they return. \<^verbatim>\<open>Seq\<close> is a \<^verbatim>\<open>uint64\<close> that is only stored and compared, never
  computed with, so it is a natural number.
\<close>

type_synonym Hash = string
type_synonym ID = string
type_synonym Validator = string

record Tx =
  Bytes :: string
  Hash :: Hash
  Label :: string

record Vote =
  Pubkey :: ID
  Seq :: nat
  TxHash :: Hash

record Block =
  Txs :: "Tx list"

text \<open>
  Modelled from the spec: the test helper \<^verbatim>\<open>newVote(pub, seq, tx)\<close> is called by the tests
  and declared outside the given sources; a vote is the tuple of the specification,
  the public key, the sequence number and the hash of the transaction.
\<close>

definition newVote :: "ID \<Rightarrow> nat \<Rightarrow> Tx \<Rightarrow> Vote" where
  "newVote pub seq tx = \<lparr>Pubkey = pub, Seq = seq, TxHash = Hash tx\<rparr>"

text \<open>
  The test helper \<^verbatim>\<open>newTestTxStr(bytes, hash)\<close>; the label stays empty. \<^verbatim>\<open>Hash()\<close> copies
  the hash string into the byte array; the strings of the tests are distinct and
  shorter than the array, so the string stands for the array.
\<close>

definition newTestTxStr :: "string \<Rightarrow> string \<Rightarrow> Tx" where
  "newTestTxStr bytes hash = \<lparr>Bytes = bytes, Hash = hash, Label = ''''\<rparr>"

subsection \<open>The sender log\<close>

text \<open>
  Modelled from the spec: the \<^verbatim>\<open>Sender\<close> type and its methods \<^verbatim>\<open>NewSender\<close>,
  \<^verbatim>\<open>AddVote\<close>, \<^verbatim>\<open>Seen\<close>, \<^verbatim>\<open>Before\<close> and \<^verbatim>\<open>UpdateTxSet\<close> are missing from the sources.
  The state is the one of the specification's data model: \<open>votes\<close>, a sparse map from
  sequence numbers to votes (field \<open>s_votes\<close>); \<open>by_hash\<close>, from a hash to the sequence
  number it was voted at; \<open>committed\<close>, the set of hashes of committed transactions.
  The gap test of the specification counts the sequence numbers "present in
  \<open>votes \<union> committed\<close>": the field \<open>pruned\<close> holds the sequence numbers of the entries
  that were moved from \<open>votes\<close> into \<open>committed\<close>.
\<close>

record Sender =
  s_id :: ID
  s_votes :: "nat \<rightharpoonup> Vote"
  by_hash :: "Hash \<rightharpoonup> nat"
  committed :: "Hash set"
  pruned :: "nat set"

text \<open>Modelled from the spec: \<^verbatim>\<open>NewSender(id)\<close>, a sender with an empty log.\<close>

definition NewSender :: "ID \<Rightarrow> Sender" where
  "NewSender key =
     \<lparr>s_id = key, s_votes = Map.empty, by_hash = Map.empty, committed = {}, pruned = {}\<rparr>"

text \<open>
  Modelled from the spec: \<^verbatim>\<open>Sender.AddVote\<close>. The vote is inserted, and the result is
  true, iff neither its sequence number nor its hash is already in the log; the same
  vote again, the same sequence number with another hash (an equivocation) and the
  same hash at another sequence number are rejected without mutation. The log is
  the maps \<open>votes\<close> and \<open>by_hash\<close>: an entry that was pruned is no longer in them.
\<close>

definition AddVote_s :: "Sender \<Rightarrow> Vote \<Rightarrow> bool \<times> Sender" where
  "AddVote_s s v =
     (if s_votes s (Seq v) \<noteq> None \<or> by_hash s (TxHash v) \<noteq> None then (False, s)
      else (True, s\<lparr>s_votes := (s_votes s)(Seq v \<mapsto> v),
                     by_hash := (by_hash s)(TxHash v \<mapsto> Seq v)\<rparr>))"

text \<open>
  Modelled from the spec: \<^verbatim>\<open>Sender.Seen\<close>, true iff the hash is in \<open>by_hash\<close> or in
  \<open>committed\<close>. The scenarios below in which it is evaluated have logs without a gap,
  as the first subtests of \<^verbatim>\<open>TestIsBlocked\<close> have; \<^verbatim>\<open>TestIsBlocked/Gapped\<close> shows that the
  \<^verbatim>\<open>Seen\<close> of the repository asks for more on a log with a gap.
\<close>

definition Seen :: "Sender \<Rightarrow> Tx \<Rightarrow> bool" where
  "Seen s tx \<longleftrightarrow> by_hash s (Hash tx) \<noteq> None \<or> Hash tx \<in> committed s"

text \<open>
  Modelled from the spec: the gap test. Every sequence number up to and including \<open>k\<close>
  is present in \<open>votes \<union> committed\<close>: it is a key of \<open>votes\<close>, or the sequence number of
  an entry that was pruned.
\<close>

definition gap_free :: "Sender \<Rightarrow> nat \<Rightarrow> bool" where
  "gap_free s k \<longleftrightarrow> list_all (\<lambda>j. s_votes s j \<noteq> None \<or> j \<in> pruned s) [0..<Suc k]"

text \<open>
  Modelled from the spec: \<^verbatim>\<open>Sender.Before\<close>. False when \<open>tx1\<close> has no recorded
  sequence number; \<open>seq tx1 < s2\<close> when \<open>tx2\<close> is recorded at \<open>s2\<close>; the gap test at
  \<open>seq tx1\<close> when \<open>tx2\<close> is not seen. The specification is silent on a \<open>tx2\<close> that
  is seen through \<open>committed\<close> alone: it has no sequence number to compare with, and
  the result is false (no priority is claimed from no evidence).
\<close>

definition Before :: "Sender \<Rightarrow> Tx \<Rightarrow> Tx \<Rightarrow> bool" where
  "Before s tx1 tx2 =
     (case by_hash s (Hash tx1) of
        None \<Rightarrow> False
      | Some s1 \<Rightarrow>
          (case by_hash s (Hash tx2) of
             Some s2 \<Rightarrow> s1 < s2
           | None \<Rightarrow> Hash tx2 \<notin> committed s \<and> gap_free s s1))"

text \<open>
  Modelled from the spec: the step of \<^verbatim>\<open>Sender.UpdateTxSet\<close> for one transaction, which
  is missing from the sources: its hash moves from \<open>votes\<close> and \<open>by_hash\<close> into
  \<open>committed\<close>, and is in \<open>committed\<close> afterwards whether the sender had voted for it
  or not (after a commit every sender has seen the transaction). The sequence number
  of an entry that is moved stays accounted for.
\<close>

definition commit_tx :: "Tx \<Rightarrow> Sender \<Rightarrow> Sender" where
  "commit_tx tx s =
     s\<lparr>s_votes := (case by_hash s (Hash tx) of
                      None \<Rightarrow> s_votes s
                    | Some k \<Rightarrow> (s_votes s)(k := None)),
       by_hash := (by_hash s)(Hash tx := None),
       committed := insert (Hash tx) (committed s),
       pruned := (case by_hash s (Hash tx) of
                    None \<Rightarrow> pruned s
                  | Some k \<Rightarrow> insert k (pruned s))\<rparr>"

text \<open>
  Modelled from the spec: \<^verbatim>\<open>Sender.UpdateTxSet(txs...)\<close>, the listed transactions one
  after the other.
\<close>

definition UpdateTxSet :: "Sender \<Rightarrow> Tx list \<Rightarrow> Sender" where
  "UpdateTxSet s ts = foldl (\<lambda>s tx. commit_tx tx s) s ts"

subsection \<open>The Wendy state\<close>

text \<open>
  \<^verbatim>\<open>senders\<close> is a \<^verbatim>\<open>map[ID]*Sender\<close>: the map holds pointers, and \<^verbatim>\<open>Sender.AddVote\<close> and
  \<^verbatim>\<open>Sender.UpdateTxSet\<close> mutate the object behind the pointer. The model keeps the
  objects in a store (\<open>heap\<close>, a list indexed by address) and the addresses in the
  map; \<^verbatim>\<open>NewSender\<close> allocates the next address. The maps that are ranged over
  (\<^verbatim>\<open>txs\<close>, \<^verbatim>\<open>senders\<close>) are association lists with \<^verbatim>\<open>m[k] = v\<close> as \<open>AList.update\<close>; the
  order of the list stands for the order of one iteration, which Go leaves open.
  \<^verbatim>\<open>votes\<close> is only looked up and is a map. Votes are never mutated, so the
  \<^verbatim>\<open>*Vote\<close> pointers are the votes themselves.
\<close>

record Wendy =
  validators :: "Validator list"
  quorum :: int
  txs :: "(Hash \<times> Tx) list"
  votes :: "Hash \<rightharpoonup> Vote"
  senders :: "(ID \<times> nat) list"
  heap :: "Sender list"

definition New :: Wendy where
  "New = \<lparr>validators = [], quorum = 0, txs = [], votes = Map.empty, senders = [], heap = []\<rparr>"

text \<open>
  The loop of \<^verbatim>\<open>UpdateValidatorSet\<close>: \<open>old\<close> is \<^verbatim>\<open>w.senders\<close>, which the loop only reads,
  \<open>new\<close> the map under construction.
\<close>

fun retain_senders ::
  "(ID \<times> nat) list \<Rightarrow> Validator list \<Rightarrow> (ID \<times> nat) list \<Rightarrow> Sender list
    \<Rightarrow> (ID \<times> nat) list \<times> Sender list" where
  "retain_senders old [] new h = (new, h)"
| "retain_senders old (v # vs) new h =
     (case map_of old v of
        Some s \<Rightarrow> retain_senders old vs (AList.update v s new) h
      | None \<Rightarrow> retain_senders old vs (AList.update v (length h) new) (h @ [NewSender v]))"

text \<open>
  \<^verbatim>\<open>UpdateValidatorSet\<close> computes the quorum in \<^verbatim>\<open>float64\<close>. A finite \<^verbatim>\<open>float64\<close> is a real
  number with a significand of 53 bits; a conversion to \<^verbatim>\<open>float64\<close> and an arithmetic
  operation give the exact result rounded to the nearest such number, a tie going to
  the even significand. First the rounding of a real number to the nearest integer,
  a tie going to the even one.
\<close>

definition round_even :: "real \<Rightarrow> int" where
  "round_even y =
     (let f = \<lfloor>y\<rfloor> in
      if y - of_int f < 1 / 2 then f
      else if 1 / 2 < y - of_int f then f + 1
      else if even f then f else f + 1)"

text \<open>
  The rounding to \<^verbatim>\<open>float64\<close>: a number \<open>x\<close> with \<open>2^e \<le> |x| < 2^(e+1)\<close> is rounded to a
  multiple of \<open>2^(e-52)\<close>. The exponent is not bounded: the products of a number of
  validators and a threshold neither overflow nor reach the subnormal numbers.
\<close>

definition float64 :: "real \<Rightarrow> real" where
  "float64 x =
     (if x = 0 then 0
      else let u = 2 powr of_int (\<lfloor>log 2 \<bar>x\<bar>\<rfloor> - 52)
           in of_int (round_even (x / u)) * u)"

text \<open>The conversion \<^verbatim>\<open>int(q)\<close> of a \<^verbatim>\<open>float64\<close> truncates towards zero.\<close>

definition trunc :: "real \<Rightarrow> int" where
  "trunc x = (if 0 \<le> x then \<lfloor>x\<rfloor> else \<lceil>x\<rceil>)"

text \<open>
  The two statements of \<^verbatim>\<open>UpdateValidatorSet\<close> that compute the quorum of \<open>n\<close>
  validators, \<^verbatim>\<open>q := math.Floor(float64(len(vs))*Quorum) + 1\<close> and \<^verbatim>\<open>w.quorum = int(q)\<close>.
  \<^verbatim>\<open>Quorum\<close> is a constant declared outside the given sources: the parameter \<open>Q\<close> is
  the value its declaration denotes, which the product takes as a \<^verbatim>\<open>float64\<close>. The
  conversions, the product and the sum are rounded; \<^verbatim>\<open>math.Floor\<close> is exact.
\<close>

definition quorum_of :: "real \<Rightarrow> nat \<Rightarrow> int" where
  "quorum_of Q n =
     (let q = float64 (of_int \<lfloor>float64 (float64 (real n) * float64 Q)\<rfloor> + 1)
      in trunc q)"

text \<open>The \<^verbatim>\<open>float64\<close> nearest to 2/3.\<close>

definition Quorum64 :: real where
  "Quorum64 = 6004799503160661 / 2 ^ 53"

definition UpdateValidatorSet :: "real \<Rightarrow> Wendy \<Rightarrow> Validator list \<Rightarrow> Wendy" where
  "UpdateValidatorSet Q w vs =
     (let q = quorum_of Q (length vs);
          (new, h) = retain_senders (senders w) vs [] (heap w)
      in w\<lparr>validators := vs, quorum := q, senders := new, heap := h\<rparr>)"

definition HonestParties :: "Wendy \<Rightarrow> int" where
  "HonestParties w = quorum w"

definition HonestMajority :: "Wendy \<Rightarrow> int" where
  "HonestMajority w = int (length (validators w)) - quorum w"

definition AddTx :: "Wendy \<Rightarrow> Tx \<Rightarrow> bool \<times> Wendy" where
  "AddTx w tx =
     (let hash = Hash tx in
      if map_of (txs w) hash \<noteq> None then (False, w)
      else (True, w\<lparr>txs := AList.update hash tx (txs w)\<rparr>))"

text \<open>
  \<^verbatim>\<open>AddVote\<close>: the sender is looked up or created, the vote is indexed by its hash
  whatever the sender answers, and the sender's answer is returned.
\<close>

definition sender_for :: "Wendy \<Rightarrow> ID \<Rightarrow> nat \<times> Wendy" where
  "sender_for w key =
     (case map_of (senders w) key of
        Some a \<Rightarrow> (a, w)
      | None \<Rightarrow> (length (heap w),
                 w\<lparr>senders := AList.update key (length (heap w)) (senders w),
                   heap := heap w @ [NewSender key]\<rparr>))"

definition AddVote :: "Wendy \<Rightarrow> Vote \<Rightarrow> bool \<times> Wendy" where
  "AddVote w v =
     (let (sender, w1) = sender_for w (Pubkey v);
          w2 = w1\<lparr>votes := (votes w1)(TxHash v \<mapsto> v)\<rparr>;
          (r, s') = AddVote_s (heap w2 ! sender) v
      in (r, w2\<lparr>heap := (heap w2)[sender := s']\<rparr>))"

definition CommitBlock :: "Wendy \<Rightarrow> Block \<Rightarrow> Wendy" where
  "CommitBlock w block =
     w\<lparr>heap := foldl (\<lambda>h (k, a). h[a := UpdateTxSet (h ! a) (Txs block)]) (heap w) (senders w)\<rparr>"

definition VoteByTxHash :: "Wendy \<Rightarrow> Hash \<Rightarrow> Vote option" where
  "VoteByTxHash w hash = votes w hash"

text \<open>
  The loop of \<^verbatim>\<open>hasQuorum\<close> over the senders in the order of one iteration; the last
  argument is the counter \<^verbatim>\<open>votes\<close>, compared with the quorum right after each
  increment.
\<close>

fun hasQuorum_loop :: "int \<Rightarrow> (Sender \<Rightarrow> bool) \<Rightarrow> Sender list \<Rightarrow> int \<Rightarrow> bool" where
  "hasQuorum_loop q fn [] n = False"
| "hasQuorum_loop q fn (s # ss) n =
     (if fn s then (if n + 1 = q then True else hasQuorum_loop q fn ss (n + 1))
      else hasQuorum_loop q fn ss n)"

definition sender_objs :: "Wendy \<Rightarrow> Sender list" where
  "sender_objs w = map (\<lambda>(k, a). heap w ! a) (senders w)"

definition hasQuorum :: "Wendy \<Rightarrow> (Sender \<Rightarrow> bool) \<Rightarrow> bool" where
  "hasQuorum w fn = hasQuorum_loop (quorum w) fn (sender_objs w) 0"

definition IsBlockedBy :: "Wendy \<Rightarrow> Tx \<Rightarrow> Tx \<Rightarrow> bool" where
  "IsBlockedBy w tx1 tx2 \<longleftrightarrow> \<not> hasQuorum w (\<lambda>s. Before s tx1 tx2)"

definition IsBlocked :: "Wendy \<Rightarrow> Tx \<Rightarrow> bool" where
  "IsBlocked w tx \<longleftrightarrow> \<not> hasQuorum w (\<lambda>s. Seen s tx)"

text \<open>
  \<^verbatim>\<open>IsBlocked\<close> as \<^verbatim>\<open>core.go\<close> has it, with the method \<^verbatim>\<open>Sender.Seen\<close>, which is not among
  the sources, as the parameter \<open>seen\<close>.
\<close>

definition IsBlockedWith :: "(Sender \<Rightarrow> Tx \<Rightarrow> bool) \<Rightarrow> Wendy \<Rightarrow> Tx \<Rightarrow> bool" where
  "IsBlockedWith seen w tx \<longleftrightarrow> \<not> hasQuorum w (\<lambda>s. seen s tx)"

subsection \<open>Reachable states\<close>

text \<open>
  The states a host can drive the core into: \<^verbatim>\<open>New()\<close> followed by any sequence of
  the four mutators. \<open>Q\<close> is the constant \<^verbatim>\<open>Quorum\<close>.
\<close>

inductive reachable :: "real \<Rightarrow> Wendy \<Rightarrow> bool" for Q :: real where
  r_New: "reachable Q New"
| r_UpdateValidatorSet: "reachable Q w \<Longrightarrow> reachable Q (UpdateValidatorSet Q w vs)"
| r_AddTx: "reachable Q w \<Longrightarrow> reachable Q (snd (AddTx w tx))"
| r_AddVote: "reachable Q w \<Longrightarrow> reachable Q (snd (AddVote w v))"
| r_CommitBlock: "reachable Q w \<Longrightarrow> reachable Q (CommitBlock w block)"

text \<open>
  The shape of the store in every reachable state: one map entry per key, one object
  per entry, every address allocated, and a sender for every validator.
\<close>

definition wendy_inv :: "Wendy \<Rightarrow> bool" where
  "wendy_inv w \<longleftrightarrow> distinct (map fst (senders w)) \<and> distinct (map snd (senders w))
          \<and> list_all (\<lambda>(k, a). a < length (heap w)) (senders w)
          \<and> list_all (\<lambda>v. map_of (senders w) v \<noteq> None) (validators w)"

text \<open>
  A host's calls as data, and the state after a list of calls on a fresh core. Every
  such state is reachable, and every reachable state is one of them.
\<close>

datatype call =
  CallUpdateValidatorSet "Validator list"
| CallAddTx Tx
| CallAddVote Vote
| CallCommitBlock Block

fun step :: "real \<Rightarrow> Wendy \<Rightarrow> call \<Rightarrow> Wendy" where
  "step Q w (CallUpdateValidatorSet vs) = UpdateValidatorSet Q w vs"
| "step Q w (CallAddTx tx) = snd (AddTx w tx)"
| "step Q w (CallAddVote v) = snd (AddVote w v)"
| "step Q w (CallCommitBlock block) = CommitBlock w block"

definition run :: "real \<Rightarrow> call list \<Rightarrow> Wendy" where
  "run Q calls = foldl (step Q) New calls"

fun is_update :: "call \<Rightarrow> bool" where
  "is_update (CallUpdateValidatorSet vs) = True"
| "is_update c = False"

text \<open>
  The number of current senders that satisfy a predicate: the keys of the \<^verbatim>\<open>senders\<close>
  map whose object satisfies it.
\<close>

definition count_senders :: "Wendy \<Rightarrow> (Sender \<Rightarrow> bool) \<Rightarrow> nat" where
  "count_senders w fn = card {k. \<exists>a. map_of (senders w) k = Some a \<and> fn (heap w ! a)}"

text \<open>The number of current senders that have seen a transaction.\<close>

definition seen_count :: "Wendy \<Rightarrow> Tx \<Rightarrow> nat" where
  "seen_count w tx = count_senders w (\<lambda>s. Seen s tx)"

text \<open>The sender object of a key, if the key is in the map.\<close>

definition sender_of :: "Wendy \<Rightarrow> ID \<Rightarrow> Sender option" where
  "sender_of w k = map_option (\<lambda>a. heap w ! a) (map_of (senders w) k)"

subsection \<open>The blocking-set builder\<close>

text \<open>
  Modelled from the spec: \<^verbatim>\<open>BlockingSet()\<close> is missing from the sources. The
  candidates are the transactions of the pool that are not \<^verbatim>\<open>IsBlocked\<close>. A candidate
  maps to the candidates that block it, itself included, closed under the relation
  (the specification's "transitive set of txs that block it", "the closure under
  that relation"): starting from the transaction, the candidates blocking a member
  are added, once per candidate at most, so as many rounds as there are candidates
  reach the closure.
\<close>

type_synonym BlockingSet = "(Hash \<times> Tx list) list"

text \<open>
  Modelled from the spec: the candidate set of \<^verbatim>\<open>BlockingSet()\<close>, the transactions of
  the pool that are not \<^verbatim>\<open>IsBlocked\<close>.
\<close>

definition candidates :: "Wendy \<Rightarrow> Tx list" where
  "candidates w = filter (\<lambda>tx. \<not> IsBlocked w tx) (map snd (txs w))"

text \<open>
  Modelled from the spec: one round of the closure of \<^verbatim>\<open>BlockingSet()\<close>. The candidates
  that are in \<open>S\<close> or block a member of \<open>S\<close>: \<open>tx'\<close> joins when \<^verbatim>\<open>IsBlockedBy(tx, tx')\<close>
  for some \<open>tx\<close> of \<open>S\<close>.
\<close>

definition blockers :: "Wendy \<Rightarrow> Tx list \<Rightarrow> Tx list \<Rightarrow> Tx list" where
  "blockers w C S = filter (\<lambda>tx'. tx' \<in> set S \<or> list_ex (\<lambda>tx. IsBlockedBy w tx tx') S) C"

text \<open>Modelled from the spec: the closure of \<^verbatim>\<open>BlockingSet()\<close>, \<open>n\<close> rounds from \<open>S\<close>.\<close>

fun blocking_closure :: "Wendy \<Rightarrow> Tx list \<Rightarrow> nat \<Rightarrow> Tx list \<Rightarrow> Tx list" where
  "blocking_closure w C 0 S = S"
| "blocking_closure w C (Suc n) S = blocking_closure w C n (blockers w C S)"

text \<open>
  Modelled from the spec: \<^verbatim>\<open>Wendy.BlockingSet()\<close>, the map from the hash of each
  candidate to the closure of the candidate.
\<close>

definition BlockingSet :: "Wendy \<Rightarrow> BlockingSet" where
  "BlockingSet w =
     (let C = candidates w
      in map (\<lambda>tx. (Hash tx, blocking_closure w C (length C) [tx])) C)"

text \<open>
  Modelled from the spec: \<^verbatim>\<open>BlockingSet.NewBlock\<close> and \<^verbatim>\<open>NewBlockWithOptions\<close> are
  missing from the sources. The block is the union of the values of the blocking
  map, in the deterministic order the specification suggests (ascending hash),
  cut to the first \<^verbatim>\<open>TxLimit\<close> transactions and then to the longest prefix whose
  summed \<^verbatim>\<open>len(tx.Bytes())\<close> stays within \<^verbatim>\<open>MaxBlockSize\<close>. A limit left at Go's zero
  value is not active: the test \<^verbatim>\<open>WithTxLimit\<close> leaves \<^verbatim>\<open>MaxBlockSize\<close> out and expects
  three transactions.
\<close>

record NewBlockOptions =
  TxLimit :: nat
  MaxBlockSize :: nat

text \<open>
  Modelled from the spec: the union of the values of the blocking map that
  \<^verbatim>\<open>NewBlock\<close> starts from, without duplicates, in ascending order of the hash.
\<close>

definition block_union :: "BlockingSet \<Rightarrow> Tx list" where
  "block_union bs = sort_key Hash (remdups (concat (map snd bs)))"

text \<open>
  Modelled from the spec: the selection of \<^verbatim>\<open>NewBlock\<close> under \<^verbatim>\<open>MaxBlockSize\<close>, which
  takes transactions in order and stops before the cap is exceeded.
\<close>

fun take_size :: "nat \<Rightarrow> Tx list \<Rightarrow> Tx list" where
  "take_size m [] = []"
| "take_size m (tx # rest) =
     (if length (Bytes tx) \<le> m then tx # take_size (m - length (Bytes tx)) rest else [])"

text \<open>The summed \<^verbatim>\<open>len(tx.Bytes())\<close> of a list of transactions, as the test computes it.\<close>

definition block_size :: "Tx list \<Rightarrow> nat" where
  "block_size ts = sum_list (map (\<lambda>tx. length (Bytes tx)) ts)"

text \<open>
  Modelled from the spec: \<^verbatim>\<open>BlockingSet.NewBlockWithOptions(opts)\<close>, the count limit
  first and the size limit on what it leaves.
\<close>

definition NewBlockWithOptions :: "BlockingSet \<Rightarrow> NewBlockOptions \<Rightarrow> Block" where
  "NewBlockWithOptions bs opts =
     (let all = block_union bs;
          limited = (if TxLimit opts = 0 then all else take (TxLimit opts) all);
          sized = (if MaxBlockSize opts = 0 then limited
                   else take_size (MaxBlockSize opts) limited)
      in \<lparr>Txs = sized\<rparr>)"

text \<open>Modelled from the spec: \<^verbatim>\<open>BlockingSet.NewBlock()\<close>, no limit being active.\<close>

definition NewBlock :: "BlockingSet \<Rightarrow> Block" where
  "NewBlock bs = NewBlockWithOptions bs \<lparr>TxLimit = 0, MaxBlockSize = 0\<rparr>"

text \<open>
  Two blocking sets have equal contents when they are the same map from hashes to
  sets of transactions, whatever the order of the entries and of each value.
\<close>

definition same_contents :: "BlockingSet \<Rightarrow> BlockingSet \<Rightarrow> bool" where
  "same_contents bs bs' \<longleftrightarrow>
     distinct (map fst bs) \<and> distinct (map fst bs')
     \<and> (\<forall>h. map_option set (map_of bs h) = map_option set (map_of bs' h))"

subsection \<open>The scenarios of the test file\<close>

definition testTx0 :: Tx where "testTx0 = newTestTxStr ''tx0'' ''h0''"
definition testTx1 :: Tx where "testTx1 = newTestTxStr ''tx1'' ''h1''"
definition testTx2 :: Tx where "testTx2 = newTestTxStr ''tx2'' ''h2''"
definition testTx3 :: Tx where "testTx3 = newTestTxStr ''tx3'' ''h3''"
definition testTx4 :: Tx where "testTx4 = newTestTxStr ''tx4'' ''h4''"
definition testTx5 :: Tx where "testTx5 = newTestTxStr ''tx5'' ''h5''"

text \<open>The four random public keys of the tests, as four distinct byte strings.\<close>

definition pub0 :: ID where "pub0 = ''pub0''"
definition pub1 :: ID where "pub1 = ''pub1''"
definition pub2 :: ID where "pub2 = ''pub2''"
definition pub3 :: ID where "pub3 = ''pub3''"

text \<open>
  \<^verbatim>\<open>TestIsBlockedBy\<close> after its subtests \<^verbatim>\<open>1of4\<close>, \<^verbatim>\<open>2of4\<close> and \<^verbatim>\<open>3of4\<close>, with
  \<^verbatim>\<open>Quorum\<close> = 2/3.
\<close>

definition blockedby_calls :: "call list" where
  "blockedby_calls =
     [CallUpdateValidatorSet [pub0, pub1, pub2, pub3],
      CallAddVote (newVote pub0 0 testTx0), CallAddVote (newVote pub0 1 testTx1),
      CallAddVote (newVote pub1 0 testTx0), CallAddVote (newVote pub1 1 testTx1),
      CallAddVote (newVote pub2 0 testTx0), CallAddVote (newVote pub2 1 testTx1)]"

definition blockedby_3of4 :: Wendy where
  "blockedby_3of4 = run (2/3) blockedby_calls"

text \<open>
  \<^verbatim>\<open>TestIsBlocked\<close> up to its subtest \<^verbatim>\<open>Gapped\<close>: three senders vote \<^verbatim>\<open>testTx0\<close> at
  sequence number 0 and the gapped transaction at 2.
\<close>

definition tx_gapped :: Tx where
  "tx_gapped = newTestTxStr ''tx-gapped'' ''hash-gapped''"

definition gapped_calls :: "call list" where
  "gapped_calls =
     [CallUpdateValidatorSet [pub0, pub1, pub2, pub3],
      CallAddVote (newVote pub0 0 testTx0),
      CallAddVote (newVote pub1 0 testTx0),
      CallAddVote (newVote pub2 0 testTx0),
      CallAddVote (newVote pub0 2 tx_gapped),
      CallAddVote (newVote pub1 2 tx_gapped),
      CallAddVote (newVote pub2 2 tx_gapped)]"

definition gapped :: Wendy where
  "gapped = run (2/3) gapped_calls"

text \<open>
  The test helper \<^verbatim>\<open>newWendyFromTxsMap\<close>: the nodes become the validators, and each
  node votes its transactions with the index as sequence number, adding each to the
  pool. The association list gives the order in which the test's map is ranged over.
  \<^verbatim>\<open>NewPubkeyFromID(node)\<close>, declared outside the given sources, is taken to give the
  key whose ID is \<open>node\<close>.
\<close>

fun vote_txs :: "ID \<Rightarrow> nat \<Rightarrow> Tx list \<Rightarrow> call list" where
  "vote_txs node i [] = []"
| "vote_txs node i (tx # rest) =
     CallAddVote (newVote node i tx) # CallAddTx tx # vote_txs node (Suc i) rest"

definition newWendyFromTxsMap_calls :: "(ID \<times> Tx list) list \<Rightarrow> call list" where
  "newWendyFromTxsMap_calls txsMap =
     CallUpdateValidatorSet (map fst txsMap)
     # concat (map (\<lambda>(node, ts). vote_txs node 0 ts) txsMap)"

definition newWendyFromTxsMap :: "real \<Rightarrow> (ID \<times> Tx list) list \<Rightarrow> Wendy" where
  "newWendyFromTxsMap Q txsMap = run Q (newWendyFromTxsMap_calls txsMap)"

text \<open>
  The log of a sender that has voted the transactions of a list, in this order, at
  the sequence numbers 0, 1, 2, ...
\<close>

definition voted :: "ID \<Rightarrow> Tx list \<Rightarrow> Sender" where
  "voted node ts =
     foldl (\<lambda>s (i, tx). snd (AddVote_s s (newVote node i tx))) (NewSender node) (enumerate 0 ts)"

text \<open>\<^verbatim>\<open>TestBlockingSet/FairnessLoop\<close>, with \<^verbatim>\<open>Quorum\<close> = 2/3.\<close>

definition fairness_loop :: Wendy where
  "fairness_loop = newWendyFromTxsMap (2/3)
     [(''0x00'', [testTx1, testTx2, testTx3, testTx4, testTx5]),
      (''0x01'', [testTx2, testTx3, testTx4, testTx5, testTx1]),
      (''0x02'', [testTx3, testTx4, testTx5, testTx1, testTx2]),
      (''0x03'', [testTx4, testTx5, testTx1, testTx2, testTx3]),
      (''0x04'', [testTx5, testTx1, testTx2, testTx3, testTx4])]"

text \<open>The blocking set of \<^verbatim>\<open>TestBlockingSet/NewBlock\<close>, and the same map ranged over
  in another order.\<close>

definition newblock_set :: BlockingSet where
  "newblock_set =
     [(Hash testTx0, [testTx0]),
      (Hash testTx1, [testTx1, testTx0]),
      (Hash testTx4, [testTx4, testTx3])]"

definition newblock_set' :: BlockingSet where
  "newblock_set' =
     [(Hash testTx4, [testTx3, testTx4]),
      (Hash testTx0, [testTx0]),
      (Hash testTx1, [testTx0, testTx1])]"

text \<open>
  A core whose validator set was updated to the empty set, and which then received
  one vote.
\<close>

definition empty_set_calls :: "call list" where
  "empty_set_calls =
     [CallUpdateValidatorSet [], CallAddVote (newVote ''0xabcd'' 0 testTx0)]"

definition empty_set_voted :: Wendy where
  "empty_set_voted = run (2/3) empty_set_calls"

text \<open>
  Four validators that have not voted, and three keys outside the validator set that
  vote \<^verbatim>\<open>testTx0\<close> and then \<^verbatim>\<open>testTx1\<close>.
\<close>

definition outsiders_calls :: "call list" where
  "outsiders_calls =
     [CallUpdateValidatorSet [pub0, pub1, pub2, pub3],
      CallAddVote (newVote ''out0'' 0 testTx0), CallAddVote (newVote ''out0'' 1 testTx1),
      CallAddVote (newVote ''out1'' 0 testTx0), CallAddVote (newVote ''out1'' 1 testTx1),
      CallAddVote (newVote ''out2'' 0 testTx0), CallAddVote (newVote ''out2'' 1 testTx1)]"

definition outsiders :: Wendy where
  "outsiders = run (2/3) outsiders_calls"

text \<open>A pool with one transaction, and the block that commits it.\<close>

definition pool_tx0 :: Wendy where
  "pool_tx0 = run (2/3) [CallUpdateValidatorSet [pub0], CallAddVote (newVote pub0 0 testTx0),
                          CallAddTx testTx0]"

definition block_tx0 :: Block where
  "block_tx0 = \<lparr>Txs = [testTx0]\<rparr>"

text \<open>
  One validator votes \<^verbatim>\<open>testTx0\<close> at 0 and \<^verbatim>\<open>testTx1\<close> at 1, and the block with
  \<^verbatim>\<open>testTx0\<close> is committed: the entry at 0 is pruned from the log of the validator.
\<close>

definition pruned_log :: Wendy where
  "pruned_log = run (2/3) [CallUpdateValidatorSet [pub0],
                            CallAddVote (newVote pub0 0 testTx0),
                            CallAddVote (newVote pub0 1 testTx1),
                            CallCommitBlock block_tx0]"

text \<open>
  A predicate in the place of \<^verbatim>\<open>Sender.Seen\<close> that does not count an entry above a gap
  of the log: one of the predicates for which \<^verbatim>\<open>TestIsBlocked/Gapped\<close> passes.
\<close>

definition seen_gap_free :: "Sender \<Rightarrow> Tx \<Rightarrow> bool" where
  "seen_gap_free s tx \<longleftrightarrow>
     (case by_hash s (Hash tx) of
        None \<Rightarrow> Hash tx \<in> committed s
      | Some k \<Rightarrow> gap_free s k)"

subsection \<open>Auxiliary notions for the proofs\<close>

text \<open>
  An association list with distinct keys holds distinct addresses iff no two keys
  map to the same address.
\<close>

definition inj_alist :: "('k \<times> 'a) list \<Rightarrow> bool" where
  "inj_alist al \<longleftrightarrow> (\<forall>k k' a. map_of al k = Some a \<longrightarrow> map_of al k' = Some a \<longrightarrow> k = k')"

text \<open>
  The invariant of the loop of \<^verbatim>\<open>UpdateValidatorSet\<close>; \<open>n0\<close> is the size of the store
  before the loop. An entry of the new map is either an entry of the old map, at an
  address below \<open>n0\<close>, or a sender the loop has allocated, which is still empty.
\<close>

definition retain_inv ::
  "(ID \<times> nat) list \<Rightarrow> nat \<Rightarrow> (ID \<times> nat) list \<Rightarrow> Sender list \<Rightarrow> bool" where
  "retain_inv old n0 new h \<longleftrightarrow>
     distinct (map fst new) \<and> inj_alist new \<and> n0 \<le> length h
     \<and> (\<forall>k a. map_of new k = Some a \<longrightarrow>
           a < length h
           \<and> (if a < n0 then map_of old k = Some a
               else map_of old k = None \<and> h ! a = NewSender k))"

text \<open>
  The log of a sender is consistent when every vote is stored at its own sequence
  number and \<open>by_hash\<close> is the index of \<open>votes\<close> by hash.
\<close>

definition sender_inv :: "Sender \<Rightarrow> bool" where
  "sender_inv s \<longleftrightarrow>
     (\<forall>k v. s_votes s k = Some v \<longrightarrow> by_hash s (TxHash v) = Some k)
     \<and> (\<forall>h k. by_hash s h = Some k \<longrightarrow> (\<exists>v. s_votes s k = Some v \<and> TxHash v = h))"

section \<open>Properties\<close>

subsection \<open>The \<^verbatim>\<open>float64\<close> product of the quorum\<close>

lemma round_even_int: "round_even (of_int m) = m"
  by (simp add: round_even_def)

lemma round_even_below:
  assumes "0 < d" "d < 1 / 2"
  shows "round_even (of_int m - d) = m"
proof -
  have f: "\<lfloor>of_int m - d\<rfloor> = m - 1"
    using assms by (simp add: floor_eq_iff)
  show ?thesis
    unfolding round_even_def f Let_def using assms by simp
qed

lemma round_even_tie:
  assumes "even m"
  shows "round_even (of_int m - 1 / 2) = m"
proof -
  have f: "\<lfloor>of_int m - (1 / 2 :: real)\<rfloor> = m - 1"
    by (simp add: floor_eq_iff)
  show ?thesis
    unfolding round_even_def f Let_def using assms by simp
qed

lemma round_even_near: "\<bar>of_int (round_even y) - y\<bar> \<le> 1 / 2"
proof -
  have "of_int \<lfloor>y\<rfloor> \<le> y" "y < of_int \<lfloor>y\<rfloor> + 1"
    by linarith+
  then show ?thesis
    unfolding round_even_def Let_def by (simp split: if_splits)
qed

lemma round_even_nonneg: "0 \<le> y \<Longrightarrow> 0 \<le> round_even y"
  unfolding round_even_def Let_def by (simp split: if_splits)

lemma float64_binade:
  assumes "2 powr of_int e \<le> x" "x < 2 powr of_int (e + 1)"
  shows "float64 x = of_int (round_even (x / 2 powr of_int (e - 52))) * 2 powr of_int (e - 52)"
proof -
  have pos: "0 < x"
    using assms(1) by (smt (verit) powr_gt_zero)
  have "\<lfloor>log 2 x\<rfloor> = e"
    using assms pos by (simp add: floor_log_eq_powr_iff)
  then show ?thesis
    using pos by (simp add: float64_def Let_def)
qed

lemma float64_ge1:
  assumes "2 ^ E \<le> x" "x < 2 ^ Suc E"
  shows "float64 x = of_int (round_even (x * 2 ^ 52 / 2 ^ E)) * 2 ^ E / 2 ^ 52"
proof -
  have a: "(2::real) powr of_int (int E) = 2 ^ E"
    by (simp add: powr_realpow)
  have b: "(2::real) powr of_int (int E + 1) = 2 ^ Suc E"
    using powr_realpow [of 2 "Suc E"] by (simp add: add.commute)
  have c: "(2::real) powr of_int (int E - 52) = 2 ^ E / 2 ^ 52"
    using powr_diff [of "2::real" "real E" 52] powr_realpow [of "2::real" 52] by (simp add: powr_realpow)
  have "float64 x = of_int (round_even (x / 2 powr of_int (int E - 52))) * 2 powr of_int (int E - 52)"
    by (rule float64_binade) (use assms a b in simp_all)
  then show ?thesis
    unfolding c by simp
qed

lemma float64_half:
  assumes "1 / 2 \<le> x" "x < 1"
  shows "float64 x = of_int (round_even (x * 2 ^ 53)) / 2 ^ 53"
proof -
  have a: "(2::real) powr of_int (- 1) = 1 / 2"
    using powr_minus [of "2::real" 1] by (simp add: field_simps)
  have c: "(2::real) powr of_int (- 1 - 52) = 1 / 2 ^ 53"
    using powr_minus [of "2::real" 53] powr_realpow [of "2::real" 53] by (simp add: field_simps)
  have "float64 x = of_int (round_even (x / 2 powr of_int (- 1 - 52))) * 2 powr of_int (- 1 - 52)"
    by (rule float64_binade) (use assms a in simp_all)
  then show ?thesis
    unfolding c by simp
qed

lemma float64_zero: "float64 0 = 0"
  by (simp add: float64_def)

lemma float64_error:
  assumes "0 < x"
  shows "\<bar>float64 x - x\<bar> \<le> x / 2 ^ 53"
proof -
  define e where "e = \<lfloor>log 2 x\<rfloor>"
  define u :: real where "u = 2 powr of_int (e - 52)"
  have upos: "0 < u"
    by (simp add: u_def)
  have "2 powr of_int e \<le> x"
    using assms floor_log_eq_powr_iff [of x 2 e] by (simp add: e_def)
  moreover have "u = 2 powr of_int e / 2 ^ 52"
    using powr_diff [of "2::real" "of_int e" 52] powr_realpow [of "2::real" 52] by (simp add: u_def)
  ultimately have ule: "u \<le> x / 2 ^ 52"
    by (simp add: field_simps)
  have f: "float64 x = of_int (round_even (x / u)) * u"
    using assms by (simp add: float64_def Let_def u_def e_def)
  have "\<bar>of_int (round_even (x / u)) - x / u\<bar> \<le> 1 / 2"
    by (rule round_even_near)
  then have "\<bar>of_int (round_even (x / u)) - x / u\<bar> * u \<le> 1 / 2 * u"
    using upos by (simp add: mult_right_mono)
  moreover have "\<bar>of_int (round_even (x / u)) - x / u\<bar> * u = \<bar>float64 x - x\<bar>"
  proof -
    have "(of_int (round_even (x / u)) - x / u) * u = float64 x - x"
      using upos by (simp add: f field_simps)
    then have "\<bar>float64 x - x\<bar> = \<bar>of_int (round_even (x / u)) - x / u\<bar> * \<bar>u\<bar>"
      by (simp only: abs_mult [symmetric])
    with upos show ?thesis
      by simp
  qed
  ultimately have "\<bar>float64 x - x\<bar> \<le> u / 2"
    by simp
  with ule show ?thesis
    by simp
qed

lemma ex_binade:
  "0 < (k::nat) \<Longrightarrow> \<exists>E. 2 ^ E \<le> k \<and> k < 2 ^ Suc E"
proof (induction k rule: less_induct)
  case (less k)
  show ?case
  proof (cases "k = 1")
    case True
    then show ?thesis
      by (intro exI [of _ 0]) simp
  next
    case False
    with less.prems have "0 < k div 2" "k div 2 < k"
      by simp_all
    from less.IH [OF this(2) this(1)] obtain E where E: "2 ^ E \<le> k div 2" "k div 2 < 2 ^ Suc E"
      by blast
    have "2 ^ Suc E \<le> k" "k < 2 ^ Suc (Suc E)"
      using E by simp_all
    then show ?thesis
      by blast
  qed
qed

lemma float64_nat:
  assumes "n < 2 ^ 53"
  shows "float64 (real n) = real n"
proof (cases "n = 0")
  case True
  then show ?thesis
    by (simp add: float64_zero)
next
  case False
  then obtain E where E: "2 ^ E \<le> n" "n < 2 ^ Suc E"
    using ex_binade [of n] by auto
  have lt: "(2::nat) ^ E < 2 ^ 53"
    using E(1) assms by linarith
  have le: "E \<le> 52"
  proof (rule ccontr)
    assume "\<not> E \<le> 52"
    then have "53 \<le> E"
      by simp
    then have "(2::nat) ^ 53 \<le> 2 ^ E"
      by (rule power_increasing) simp
    with lt show False
      by linarith
  qed
  have r: "(2::real) ^ E \<le> real n" "real n < 2 ^ Suc E"
    using E by (metis of_nat_le_iff of_nat_numeral of_nat_power, metis of_nat_less_iff of_nat_numeral of_nat_power)
  have p: "(2::real) ^ 52 = 2 ^ E * 2 ^ (52 - E)"
    using le by (simp add: power_add [symmetric])
  have "real n * 2 ^ 52 / 2 ^ E = of_int (int (n * 2 ^ (52 - E)))"
    unfolding p by simp
  then have "round_even (real n * 2 ^ 52 / 2 ^ E) = int (n * 2 ^ (52 - E))"
    by (simp only: round_even_int)
  then have "float64 (real n) = of_int (int (n * 2 ^ (52 - E))) * 2 ^ E / 2 ^ 52"
    using float64_ge1 [OF r] by simp
  also have "\<dots> = real n"
    unfolding p by simp
  finally show ?thesis .
qed


lemma round_even_above:
  assumes "0 \<le> d" "d < 1 / 2"
  shows "round_even (of_int m + d) = m"
proof -
  have f: "\<lfloor>of_int m + d\<rfloor> = m"
    using assms by (simp add: floor_eq_iff)
  show ?thesis
    unfolding round_even_def f Let_def using assms by simp
qed

lemma float64_two_thirds: "float64 (2 / 3) = 6004799503160661 / 2 ^ 53"
proof -
  have "(2 / 3 :: real) * 2 ^ 53 = of_int 6004799503160661 + 1 / 3"
    by simp
  then have "round_even ((2 / 3 :: real) * 2 ^ 53) = 6004799503160661"
    using round_even_above [of "1 / 3" 6004799503160661] by simp
  then show ?thesis
    using float64_half [of "2 / 3"] by simp
qed

lemma float64_thirds_exact:
  assumes m: "0 < m" "m < 2 ^ 51"
  shows "float64 (real (3 * m) * (6004799503160661 / 2 ^ 53)) = real (2 * m)"
proof -
  define x :: real where "x = real (3 * m) * (6004799503160661 / 2 ^ 53)"
  have x: "x = 2 * real m - real m / 2 ^ 53"
    by (simp add: x_def)
  have mr: "0 < real m" "real m < 2 ^ 51"
    using m by (simp, metis of_nat_less_iff of_nat_numeral of_nat_power)
  obtain E where E: "2 ^ E \<le> 2 * m" "2 * m < 2 ^ Suc E"
    using ex_binade [of "2 * m"] m by auto
  have Er: "(2::real) ^ E \<le> 2 * real m" "2 * real m < 2 ^ Suc E"
    using E by (metis of_nat_le_iff of_nat_numeral of_nat_power of_nat_mult,
        metis of_nat_less_iff of_nat_numeral of_nat_power of_nat_mult)
  have "(2::nat) ^ E < 2 ^ 52"
    using E(1) m(2) by simp
  then have le: "E \<le> 52"
    by (metis less_or_eq_imp_le nat_power_less_imp_less pos2)
  have "E \<noteq> 0"
    using E(2) m(1) by (cases E) simp_all
  then obtain E' where E': "E = Suc E'"
    by (cases E) simp_all
  show ?thesis
  proof (cases "2 * m = 2 ^ E")
    case True
    then have tm: "2 * real m = 2 ^ E"
      by (metis of_nat_numeral of_nat_power of_nat_mult)
    have mE: "real m = 2 ^ E'"
      using tm by (simp add: E')
    have b: "2 ^ E' \<le> x" "x < 2 ^ Suc E'"
      using mr by (simp_all add: x mE)
    have "x * 2 ^ 52 / 2 ^ E' = of_int (2 ^ 53) - 1 / 2"
      by (simp add: x mE field_simps)
    then have "round_even (x * 2 ^ 52 / 2 ^ E') = 2 ^ 53"
      by (simp only: round_even_tie [of "2 ^ 53", OF even_power [THEN iffD2]] even_numeral
          zero_less_numeral simp_thms)
    then have "float64 x = of_int (2 ^ 53) * 2 ^ E' / 2 ^ 52"
      using float64_ge1 [OF b] by simp
    also have "\<dots> = 2 * real m"
      by (simp add: mE)
    finally show ?thesis
      by (simp add: x_def)
  next
    case False
    with E(1) have "2 ^ E + 1 \<le> 2 * m"
      by simp
    then have "real (2 ^ E + 1) \<le> real (2 * m)"
      by (simp only: of_nat_le_iff)
    then have ge: "(2::real) ^ E + 1 \<le> 2 * real m"
      by simp
    have t: "0 < real m / 2 ^ 53" "real m / 2 ^ 53 < 1"
      using mr by simp_all
    have b: "2 ^ E \<le> x" "x < 2 ^ Suc E"
      using ge Er(2) t unfolding x by linarith+
    have p: "(2::real) ^ 52 = 2 ^ E * 2 ^ (52 - E)"
      using le by (simp add: power_add [symmetric])
    define d :: real where "d = real m / (2 * 2 ^ E)"
    have d: "0 < d" "d < 1 / 2"
      using mr(1) Er(2) by (simp_all add: d_def field_simps)
    have "real m / 2 ^ 53 * 2 ^ 52 / 2 ^ E = d"
      by (simp add: d_def)
    moreover have "2 * real m * 2 ^ 52 / 2 ^ E = of_int (int (2 * m * 2 ^ (52 - E)))"
      unfolding p by simp
    ultimately have "x * 2 ^ 52 / 2 ^ E = of_int (int (2 * m * 2 ^ (52 - E))) - d"
      unfolding x by (simp only: left_diff_distrib diff_divide_distrib)
    then have "round_even (x * 2 ^ 52 / 2 ^ E) = int (2 * m * 2 ^ (52 - E))"
      by (simp only: round_even_below [OF d])
    then have "float64 x = of_int (int (2 * m * 2 ^ (52 - E))) * 2 ^ E / 2 ^ 52"
      using float64_ge1 [OF b] by simp
    also have "\<dots> = 2 * real m"
      unfolding p by simp
    finally show ?thesis
      by (simp add: x_def)
  qed
qed

lemma float64_thirds_floor:
  assumes n: "n < 2 ^ 51" and r: "2 * n = 3 * k + r" "r = 1 \<or> r = 2"
  shows "\<lfloor>float64 (real n * (6004799503160661 / 2 ^ 53))\<rfloor> = int k"
proof -
  define x :: real where "x = real n * (6004799503160661 / 2 ^ 53)"
  have nr: "real n < 2 ^ 51"
    using n by (metis of_nat_less_iff of_nat_numeral of_nat_power)
  have "real (2 * n) = real (3 * k + r)"
    using r(1) by (simp only:)
  then have eq: "2 * real n = 3 * real k + real r"
    by simp
  have rr: "real r = 1 \<or> real r = 2"
    using r(2) by auto
  have pos: "0 < x"
    using r by (auto simp add: x_def)
  have err: "\<bar>float64 x - x\<bar> \<le> x / 2 ^ 53"
    using pos by (rule float64_error)
  have xn: "x = real n * 6004799503160661 / 9007199254740992"
    by (simp add: x_def)
  have nr': "real n < 2251799813685248"
    using nr by simp
  have err': "\<bar>float64 x - x\<bar> \<le> x / 9007199254740992"
    using err by simp
  have "real k \<le> float64 x \<and> float64 x < real k + 1"
    using rr eq xn nr' err' by linarith
  then show ?thesis
    by (simp add: floor_eq_iff x_def)
qed

lemma quorum_of_two_thirds:
  assumes n: "n < 2 ^ 51"
  shows "quorum_of (2 / 3) n = \<lfloor>real n * (2 / 3)\<rfloor> + 1"
proof -
  define k where "k = 2 * n div 3"
  define r where "r = 2 * n mod 3"
  have eq: "2 * n = 3 * k + r" and rlt: "r < 3"
    by (simp_all add: k_def r_def)
  have n53: "n < 2 ^ 53"
    using n by (rule less_trans) simp
  have "real (2 * n) = real (3 * k + r)"
    using eq by (simp only:)
  then have eqr: "real n * (2 / 3) = real k + real r / 3"
    by simp
  have "real r < 3"
    using rlt by simp
  then have ideal: "\<lfloor>real n * (2 / 3)\<rfloor> = int k"
    unfolding eqr by (simp add: floor_eq_iff)
  have k53: "Suc k < 2 ^ 53"
    using eq n53 by simp
  have fl: "\<lfloor>float64 (real n * (6004799503160661 / 2 ^ 53))\<rfloor> = int k"
  proof (cases "r = 0")
    case True
    then have "n mod 3 = 0"
      unfolding r_def by presburger
    then obtain m where m: "n = 3 * m"
      by (metis mod_0_imp_dvd dvd_def)
    show ?thesis
    proof (cases "m = 0")
      case True
      with m eq \<open>r = 0\<close> show ?thesis
        by (simp add: float64_zero)
    next
      case False
      have k: "k = 2 * m"
        using eq m \<open>r = 0\<close> by simp
      have "m < 2 ^ 51"
        using n m by simp
      with False have "float64 (real (3 * m) * (6004799503160661 / 2 ^ 53)) = real (2 * m)"
        by (intro float64_thirds_exact) simp_all
      then show ?thesis
        unfolding m k by (simp only: floor_of_nat)
    qed
  next
    case False
    with rlt have "r = 1 \<or> r = 2"
      by auto
    with n eq show ?thesis
      by (rule float64_thirds_floor)
  qed
  have "float64 (real (Suc k)) = real (Suc k)"
    using k53 by (rule float64_nat)
  then have "float64 (of_int (int k) + 1) = of_int (int k) + 1"
    by (simp add: add.commute)
  then show ?thesis
    unfolding quorum_of_def float64_two_thirds float64_nat [OF n53] fl ideal
    by (simp add: trunc_def)
qed

lemma quorum_of_zero: "quorum_of Q 0 = 1"
proof -
  have "float64 1 = 1"
    using float64_nat [of 1] by simp
  then show ?thesis
    by (simp add: quorum_of_def float64_zero trunc_def)
qed

lemma float64_Quorum64: "float64 Quorum64 = Quorum64"
proof -
  have "Quorum64 * 2 ^ 53 = of_int 6004799503160661"
    by (simp add: Quorum64_def)
  then have "round_even (Quorum64 * 2 ^ 53) = 6004799503160661"
    by (simp only: round_even_int)
  moreover have "1 / 2 \<le> Quorum64" "Quorum64 < 1"
    by (simp_all add: Quorum64_def)
  ultimately show ?thesis
    using float64_half [of Quorum64] by (simp add: Quorum64_def)
qed

lemma quorum_of_Quorum64: "quorum_of Quorum64 n = quorum_of (2 / 3) n"
proof -
  have "float64 (2 / 3) = Quorum64"
    unfolding Quorum64_def by (rule float64_two_thirds)
  then have "float64 Quorum64 = float64 (2 / 3)"
    by (simp only: float64_Quorum64)
  then show ?thesis
    by (simp only: quorum_of_def)
qed

lemma round_even_ge_floor: "\<lfloor>y\<rfloor> \<le> round_even y"
  by (simp add: round_even_def Let_def)

lemma float64_nonneg:
  assumes "0 \<le> x"
  shows "0 \<le> float64 x"
proof (cases "x = 0")
  case True
  then show ?thesis
    by (simp add: float64_zero)
next
  case False
  define u :: real where "u = 2 powr of_int (\<lfloor>log 2 \<bar>x\<bar>\<rfloor> - 52)"
  have "0 < u"
    by (simp add: u_def)
  with assms have "0 \<le> x / u"
    by simp
  then have "0 \<le> round_even (x / u)"
    by (rule round_even_nonneg)
  with \<open>0 < u\<close> have "0 \<le> of_int (round_even (x / u)) * u"
    by simp
  then show ?thesis
    using False by (simp add: float64_def Let_def u_def)
qed

lemma float64_ge_one:
  assumes "1 \<le> x"
  shows "1 \<le> float64 x"
proof -
  define e where "e = \<lfloor>log 2 x\<rfloor>"
  define u :: real where "u = 2 powr of_int (e - 52)"
  have pos: "0 < x"
    using assms by simp
  have upos: "0 < u"
    by (simp add: u_def)
  have "0 \<le> log 2 x"
    using assms by simp
  then have e0: "0 \<le> e"
    by (simp add: e_def)
  have le: "2 powr of_int e \<le> x"
    using pos floor_log_eq_powr_iff [of x 2 e] by (simp add: e_def)
  have u: "u = 2 powr of_int e / 2 ^ 52"
    using powr_diff [of "2::real" "of_int e" 52] powr_realpow [of "2::real" 52] by (simp add: u_def)
  have "2 powr of_int e / u = of_int (2 ^ 52)"
    by (simp add: u)
  moreover have "2 powr of_int e / u \<le> x / u"
    using le upos by (simp add: divide_right_mono)
  ultimately have "of_int (2 ^ 52) \<le> x / u"
    by simp
  then have "2 ^ 52 \<le> \<lfloor>x / u\<rfloor>"
    by (simp only: le_floor_iff)
  with round_even_ge_floor [of "x / u"] have "2 ^ 52 \<le> round_even (x / u)"
    by linarith
  then have "(2::real) ^ 52 \<le> of_int (round_even (x / u))"
    by (metis of_int_le_iff of_int_numeral of_int_power)
  then have "2 ^ 52 * u \<le> of_int (round_even (x / u)) * u"
    using upos by (simp only: mult_le_cancel_right_pos)
  moreover have "2 ^ 52 * u = 2 powr of_int e"
    by (simp add: u)
  moreover have "(1::real) \<le> 2 powr of_int e"
    using e0 by (simp add: ge_one_powr_ge_zero)
  moreover have "float64 x = of_int (round_even (x / u)) * u"
    using pos by (simp add: float64_def Let_def u_def e_def)
  ultimately show ?thesis
    by linarith
qed

lemma quorum_of_positive:
  assumes "0 \<le> Q"
  shows "1 \<le> quorum_of Q n"
proof -
  have "0 \<le> float64 (real n) * float64 Q"
    using assms by (simp add: float64_nonneg)
  then have "0 \<le> float64 (float64 (real n) * float64 Q)"
    by (rule float64_nonneg)
  then have "1 \<le> of_int \<lfloor>float64 (float64 (real n) * float64 Q)\<rfloor> + (1::real)"
    by simp
  then have "1 \<le> float64 (of_int \<lfloor>float64 (float64 (real n) * float64 Q)\<rfloor> + 1)"
    by (rule float64_ge_one)
  then show ?thesis
    by (simp add: quorum_of_def Let_def trunc_def le_floor_iff)
qed


text \<open>
  With \<^verbatim>\<open>Quorum\<close> = 2/3 the \<^verbatim>\<open>float64\<close> computation gives the quorum of exact arithmetic,
  \<open>\<lfloor>n * 2/3\<rfloor> + 1\<close> (lemma \<open>quorum_of_two_thirds\<close>): the constant is rounded down to
  \<open>(2^54 - 1) / (3 * 2^53)\<close>, the product of a multiple of 3 is rounded up to the whole
  number again, and any other product stays between the same two whole numbers.
\<close>

subsection \<open>The quorum loop counts senders\<close>

lemma hasQuorum_loop_iff:
  "hasQuorum_loop q fn ss n \<longleftrightarrow> n < q \<and> q \<le> n + int (length (filter fn ss))"
proof (induction ss arbitrary: n)
  case Nil
  show ?case by simp
next
  case (Cons s ss)
  show ?case
  proof (cases "fn s")
    case True
    then show ?thesis using Cons.IH [of "n + 1"] by (simp) linarith
  next
    case False
    then show ?thesis using Cons.IH [of n] by simp
  qed
qed


lemma card_satisfying_keys:
  "distinct (map fst al) \<Longrightarrow>
     card {k. \<exists>a. map_of al k = Some a \<and> P a} = length (filter (\<lambda>(k, a). P a) al)"
proof (induction al)
  case Nil
  then show ?case by simp
next
  case (Cons x al)
  obtain k0 a0 where x: "x = (k0, a0)" by (cases x)
  from Cons.prems x have notin: "k0 \<notin> fst ` set al" and d: "distinct (map fst al)"
    by auto
  have none: "map_of al k0 = None"
    using notin by (simp add: map_of_eq_None_iff)
  let ?S = "{k. \<exists>a. map_of al k = Some a \<and> P a}"
  have fin: "finite ?S"
    by (rule finite_subset [of _ "dom (map_of al)"]) (auto simp: finite_dom_map_of)
  have k0S: "k0 \<notin> ?S" using none by simp
  have IH: "card ?S = length (filter (\<lambda>(k, a). P a) al)"
    by (rule Cons.IH [OF d])
  show ?case
  proof (cases "P a0")
    case True
    have "{k. \<exists>a. map_of (x # al) k = Some a \<and> P a} = insert k0 ?S"
      using none x True by auto
    then show ?thesis using fin k0S IH x True by simp
  next
    case False
    have "{k. \<exists>a. map_of (x # al) k = Some a \<and> P a} = ?S"
      using none x False by auto
    then show ?thesis using IH x False by simp
  qed
qed

lemma length_filter_sender_objs:
  "length (filter fn (sender_objs w)) = length (filter (\<lambda>(k, a). fn (heap w ! a)) (senders w))"
  by (simp add: sender_objs_def length_filter_map comp_def case_prod_unfold)

lemma count_senders_length:
  "distinct (map fst (senders w)) \<Longrightarrow> count_senders w fn = length (filter fn (sender_objs w))"
  unfolding count_senders_def length_filter_sender_objs
  by (rule card_satisfying_keys)

text \<open>
  \<^verbatim>\<open>hasQuorum\<close> holds iff the quorum is positive and at least \<^verbatim>\<open>quorum\<close> senders satisfy the
  predicate: the answer depends on the map and the objects, not on the order in which
  the map is ranged over.
\<close>

lemma hasQuorum_iff:
  "distinct (map fst (senders w)) \<Longrightarrow>
     hasQuorum w fn \<longleftrightarrow> 1 \<le> quorum w \<and> quorum w \<le> int (count_senders w fn)"
  unfolding hasQuorum_def hasQuorum_loop_iff by (simp add: count_senders_length) linarith

subsection \<open>The shape of the store is invariant\<close>

lemma distinct_snd_iff:
  assumes "distinct (map fst al)"
  shows "distinct (map snd al) \<longleftrightarrow> inj_alist al"
proof -
  have d: "distinct al" using assms by (rule distinct_map [THEN iffD1, THEN conjunct1])
  have mem: "\<And>k a. (k, a) \<in> set al \<longleftrightarrow> map_of al k = Some a"
    using assms by simp
  have "distinct (map snd al) \<longleftrightarrow> inj_on snd (set al)"
    using d by (simp add: distinct_map)
  also have "\<dots> \<longleftrightarrow> inj_alist al"
    unfolding inj_on_def inj_alist_def
  proof (intro iffI allI impI ballI)
    fix k k' a
    assume h: "\<forall>x\<in>set al. \<forall>y\<in>set al. snd x = snd y \<longrightarrow> x = y"
      and "map_of al k = Some a" "map_of al k' = Some a"
    then have "(k, a) \<in> set al" "(k', a) \<in> set al" by (simp_all add: mem)
    with h have "(k, a) = (k', a)" by fastforce
    then show "k = k'" by simp
  next
    fix x y
    assume h: "\<forall>k k' a. map_of al k = Some a \<longrightarrow> map_of al k' = Some a \<longrightarrow> k = k'"
      and xy: "x \<in> set al" "y \<in> set al" "snd x = snd y"
    obtain k a where x: "x = (k, a)" by (cases x)
    obtain k' a' where y: "y = (k', a')" by (cases y)
    from xy x y have "map_of al k = Some a" "map_of al k' = Some a"
      by (simp_all add: mem [symmetric])
    with h have "k = k'" by blast
    with xy x y show "x = y" by simp
  qed
  finally show ?thesis .
qed

lemma list_all_alist_iff:
  assumes "distinct (map fst al)"
  shows "list_all (\<lambda>(k, a). P k a) al \<longleftrightarrow> (\<forall>k a. map_of al k = Some a \<longrightarrow> P k a)"
  using assms by (auto simp: list_all_iff)

lemma wendy_inv_iff:
  "wendy_inv w \<longleftrightarrow>
     distinct (map fst (senders w)) \<and> inj_alist (senders w)
     \<and> (\<forall>k a. map_of (senders w) k = Some a \<longrightarrow> a < length (heap w))
     \<and> (\<forall>v \<in> set (validators w). map_of (senders w) v \<noteq> None)"
proof (cases "distinct (map fst (senders w))")
  case True
  show ?thesis
    unfolding wendy_inv_def
    using distinct_snd_iff [OF True] list_all_alist_iff [OF True, of "\<lambda>k a. a < length (heap w)"]
    by (simp add: list_all_iff)
next
  case False
  then show ?thesis by (simp add: wendy_inv_def)
qed

lemma retain_inv_Some:
  assumes J: "retain_inv old n0 new h"
    and O1: "\<forall>k a. map_of old k = Some a \<longrightarrow> a < n0"
    and O2: "inj_alist old"
    and s: "map_of old v = Some s"
  shows "retain_inv old n0 (AList.update v s new) h"
proof -
  have sn: "s < n0" using O1 s by blast
  have d: "distinct (map fst (AList.update v s new))"
    using J by (simp add: retain_inv_def distinct_update)
  have entries: "\<forall>k a. map_of (AList.update v s new) k = Some a \<longrightarrow>
           a < length h
           \<and> (if a < n0 then map_of old k = Some a
               else map_of old k = None \<and> h ! a = NewSender k)"
    using J sn s by (auto simp: retain_inv_def update_conv' split: if_splits)
  have inj: "inj_alist (AList.update v s new)"
    unfolding inj_alist_def
  proof (intro allI impI)
    fix k k' a
    assume a1: "map_of (AList.update v s new) k = Some a"
      and a2: "map_of (AList.update v s new) k' = Some a"
    from entries a1 have e1: "if a < n0 then map_of old k = Some a else map_of old k = None \<and> h ! a = NewSender k" by blast
    from entries a2 have e2: "if a < n0 then map_of old k' = Some a else map_of old k' = None \<and> h ! a = NewSender k'" by blast
    show "k = k'"
    proof (cases "a < n0")
      case True
      with e1 e2 have "map_of old k = Some a" "map_of old k' = Some a" by simp_all
      with O2 show ?thesis unfolding inj_alist_def by blast
    next
      case False
      with e1 e2 have "NewSender k = NewSender k'" by simp
      then show ?thesis by (simp add: NewSender_def)
    qed
  qed
  show ?thesis
    unfolding retain_inv_def using d inj entries J by (simp add: retain_inv_def)
qed

lemma retain_inv_None:
  assumes J: "retain_inv old n0 new h"
    and s: "map_of old v = None"
  shows "retain_inv old n0 (AList.update v (length h) new) (h @ [NewSender v])"
proof -
  have d: "distinct (map fst (AList.update v (length h) new))"
    using J by (simp add: retain_inv_def distinct_update)
  have n0: "n0 \<le> length h" using J by (simp add: retain_inv_def)
  have old_entries: "\<And>k a. map_of new k = Some a \<Longrightarrow>
           a < length h
           \<and> (if a < n0 then map_of old k = Some a
               else map_of old k = None \<and> h ! a = NewSender k)"
    using J by (simp add: retain_inv_def)
  have entries: "\<forall>k a. map_of (AList.update v (length h) new) k = Some a \<longrightarrow>
           a < length (h @ [NewSender v])
           \<and> (if a < n0 then map_of old k = Some a
               else map_of old k = None \<and> (h @ [NewSender v]) ! a = NewSender k)"
  proof (intro allI impI)
    fix k a
    assume a1: "map_of (AList.update v (length h) new) k = Some a"
    show "a < length (h @ [NewSender v])
           \<and> (if a < n0 then map_of old k = Some a
               else map_of old k = None \<and> (h @ [NewSender v]) ! a = NewSender k)"
    proof (cases "k = v")
      case True
      with a1 have "a = length h" by (simp add: update_conv')
      with True n0 s show ?thesis by simp
    next
      case False
      with a1 have "map_of new k = Some a" by (simp add: update_conv')
      from old_entries [OF this] show ?thesis by (simp add: nth_append)
    qed
  qed
  have inj: "inj_alist (AList.update v (length h) new)"
    unfolding inj_alist_def
  proof (intro allI impI)
    fix k k' a
    assume a1: "map_of (AList.update v (length h) new) k = Some a"
      and a2: "map_of (AList.update v (length h) new) k' = Some a"
    have J2: "inj_alist new" using J by (simp add: retain_inv_def)
    show "k = k'"
    proof (cases "k = v")
      case True
      with a1 have a: "a = length h" by (simp add: update_conv')
      show ?thesis
      proof (cases "k' = v")
        case True
        with \<open>k = v\<close> show ?thesis by simp
      next
        case False
        with a2 have "map_of new k' = Some a" by (simp add: update_conv')
        from old_entries [OF this] a show ?thesis by simp
      qed
    next
      case False
      with a1 have m1: "map_of new k = Some a" by (simp add: update_conv')
      show ?thesis
      proof (cases "k' = v")
        case True
        with a2 have "a = length h" by (simp add: update_conv')
        with old_entries [OF m1] show ?thesis by simp
      next
        case False
        with a2 have "map_of new k' = Some a" by (simp add: update_conv')
        with m1 J2 show ?thesis unfolding inj_alist_def by blast
      qed
    qed
  qed
  show ?thesis
    unfolding retain_inv_def using d inj entries n0 by simp
qed


lemma retain_senders_inv:
  assumes O1: "\<forall>k a. map_of old k = Some a \<longrightarrow> a < n0"
    and O2: "inj_alist old"
  shows "retain_inv old n0 new h \<Longrightarrow> retain_senders old vs new h = (new', h') \<Longrightarrow>
     retain_inv old n0 new' h' \<and> fst ` set new' = fst ` set new \<union> set vs
     \<and> (\<exists>ext. h' = h @ ext)"
proof (induction vs arbitrary: new h)
  case Nil
  then show ?case by simp
next
  case (Cons v vs)
  show ?case
  proof (cases "map_of old v")
    case None
    have J: "retain_inv old n0 (AList.update v (length h) new) (h @ [NewSender v])"
      by (rule retain_inv_None [OF Cons.prems(1) None])
    have R: "retain_senders old vs (AList.update v (length h) new) (h @ [NewSender v]) = (new', h')"
      using Cons.prems(2) None by simp
    from Cons.IH [OF J R] show ?thesis by (auto simp: dom_update)
  next
    case (Some s)
    have J: "retain_inv old n0 (AList.update v s new) h"
      by (rule retain_inv_Some [OF Cons.prems(1) O1 O2 Some])
    have R: "retain_senders old vs (AList.update v s new) h = (new', h')"
      using Cons.prems(2) Some by simp
    from Cons.IH [OF J R] show ?thesis by (auto simp: dom_update)
  qed
qed

lemma retain_inv_Nil: "retain_inv old (length h) [] h"
  by (simp add: retain_inv_def inj_alist_def)

lemma wendy_inv_New: "wendy_inv New"
  by (simp add: wendy_inv_def New_def)

lemma UpdateValidatorSet_fields:
  assumes "retain_senders (senders w) vs [] (heap w) = (new, h)"
  shows "UpdateValidatorSet Q w vs =
           w\<lparr>validators := vs, quorum := quorum_of Q (length vs), senders := new, heap := h\<rparr>"
  using assms by (simp add: UpdateValidatorSet_def Let_def)

lemma wendy_inv_UpdateValidatorSet:
  assumes inv: "wendy_inv w"
  shows "wendy_inv (UpdateValidatorSet Q w vs)"
proof -
  obtain new h where R: "retain_senders (senders w) vs [] (heap w) = (new, h)"
    by (cases "retain_senders (senders w) vs [] (heap w)")
  from inv have O1: "\<forall>k a. map_of (senders w) k = Some a \<longrightarrow> a < length (heap w)"
    and O2: "inj_alist (senders w)"
    by (simp_all add: wendy_inv_iff)
  from retain_senders_inv [OF O1 O2 retain_inv_Nil R]
  have J: "retain_inv (senders w) (length (heap w)) new h"
    and K: "fst ` set new = set vs"
    by simp_all
  have dn: "distinct (map fst new)" using J by (simp add: retain_inv_def)
  have "\<forall>v \<in> set vs. map_of new v \<noteq> None"
    using K by (simp add: map_of_eq_None_iff)
  then show ?thesis
    unfolding UpdateValidatorSet_fields [OF R] wendy_inv_iff
    using J by (simp add: retain_inv_def)
qed

lemma AddTx_fields:
  "senders (snd (AddTx w tx)) = senders w" "heap (snd (AddTx w tx)) = heap w"
  "validators (snd (AddTx w tx)) = validators w" "quorum (snd (AddTx w tx)) = quorum w"
  "votes (snd (AddTx w tx)) = votes w"
  by (simp_all add: AddTx_def Let_def)

lemma wendy_inv_AddTx: "wendy_inv w \<Longrightarrow> wendy_inv (snd (AddTx w tx))"
  unfolding wendy_inv_def AddTx_fields .

lemma AddVote_Some:
  assumes "map_of (senders w) (Pubkey v) = Some a"
  shows "snd (AddVote w v) =
    w\<lparr>votes := (votes w)(TxHash v \<mapsto> v), heap := (heap w)[a := snd (AddVote_s (heap w ! a) v)]\<rparr>"
    and "fst (AddVote w v) = fst (AddVote_s (heap w ! a) v)"
  using assms by (simp_all add: AddVote_def sender_for_def Let_def case_prod_unfold)

lemma AddVote_None:
  assumes "map_of (senders w) (Pubkey v) = None"
  shows "snd (AddVote w v) =
    w\<lparr>votes := (votes w)(TxHash v \<mapsto> v),
      senders := AList.update (Pubkey v) (length (heap w)) (senders w),
      heap := heap w @ [snd (AddVote_s (NewSender (Pubkey v)) v)]\<rparr>"
    and "fst (AddVote w v) = fst (AddVote_s (NewSender (Pubkey v)) v)"
  using assms by (simp_all add: AddVote_def sender_for_def Let_def case_prod_unfold)

lemma AddVote_fields:
  "validators (snd (AddVote w v)) = validators w" "quorum (snd (AddVote w v)) = quorum w"
  "txs (snd (AddVote w v)) = txs w"
  by (cases "map_of (senders w) (Pubkey v)"; simp add: AddVote_Some AddVote_None)+

lemma wendy_inv_AddVote:
  assumes inv: "wendy_inv w"
  shows "wendy_inv (snd (AddVote w v))"
proof (cases "map_of (senders w) (Pubkey v)")
  case None
  from inv have d: "distinct (map fst (senders w))" and i: "inj_alist (senders w)"
    and b: "\<forall>k a. map_of (senders w) k = Some a \<longrightarrow> a < length (heap w)"
    and val: "\<forall>v \<in> set (validators w). map_of (senders w) v \<noteq> None"
    using inv [unfolded wendy_inv_iff] by blast+
  have i': "inj_alist (AList.update (Pubkey v) (length (heap w)) (senders w))"
    unfolding inj_alist_def
  proof (intro allI impI)
    fix k k' a
    assume "map_of (AList.update (Pubkey v) (length (heap w)) (senders w)) k = Some a"
      "map_of (AList.update (Pubkey v) (length (heap w)) (senders w)) k' = Some a"
    then have a1: "if k = Pubkey v then a = length (heap w) else map_of (senders w) k = Some a"
      and a2: "if k' = Pubkey v then a = length (heap w) else map_of (senders w) k' = Some a"
      by (auto simp: update_conv' split: if_splits)
    show "k = k'"
    proof (cases "k = Pubkey v"; cases "k' = Pubkey v")
      assume "k \<noteq> Pubkey v" "k' \<noteq> Pubkey v"
      with a1 a2 have "map_of (senders w) k = Some a" "map_of (senders w) k' = Some a"
        by simp_all
      with i show ?thesis unfolding inj_alist_def by blast
    next
      assume "k = Pubkey v" "k' \<noteq> Pubkey v"
      with a1 a2 have "map_of (senders w) k' = Some (length (heap w))" by simp
      with b have "length (heap w) < length (heap w)" by blast
      then show ?thesis by simp
    next
      assume "k \<noteq> Pubkey v" "k' = Pubkey v"
      with a1 a2 have "map_of (senders w) k = Some (length (heap w))" by simp
      with b have "length (heap w) < length (heap w)" by blast
      then show ?thesis by simp
    qed simp
  qed
  show ?thesis
    unfolding AddVote_None(1) [OF None] wendy_inv_iff
    using d i' b val by (auto simp: distinct_update update_conv' less_Suc_eq)
next
  case (Some a)
  have "senders (snd (AddVote w v)) = senders w" "validators (snd (AddVote w v)) = validators w"
    "length (heap (snd (AddVote w v))) = length (heap w)"
    by (simp_all add: AddVote_Some(1) [OF Some])
  then show ?thesis
    using inv unfolding wendy_inv_def by (simp only:)
qed


lemma commit_loop_nth:
  "distinct (map snd al) \<Longrightarrow> list_all (\<lambda>(k, a). a < length h) al \<Longrightarrow>
     length (foldl (\<lambda>h (k, a). h[a := f (h ! a)]) h al) = length h
     \<and> (\<forall>i < length h. foldl (\<lambda>h (k, a). h[a := f (h ! a)]) h al ! i
           = (if i \<in> snd ` set al then f (h ! i) else h ! i))"
proof (induction al arbitrary: h)
  case Nil
  then show ?case by simp
next
  case (Cons x al)
  obtain k0 a0 where x: "x = (k0, a0)" by (cases x)
  let ?h1 = "h[a0 := f (h ! a0)]"
  from Cons.prems x have d: "distinct (map snd al)" and a0: "a0 \<notin> snd ` set al"
    and v: "list_all (\<lambda>(k, a). a < length ?h1) al" and a0h: "a0 < length h"
    by auto
  from Cons.IH [OF d v]
  have len: "length (foldl (\<lambda>h (k, a). h[a := f (h ! a)]) ?h1 al) = length h"
    and nth: "\<And>i. i < length h \<Longrightarrow> foldl (\<lambda>h (k, a). h[a := f (h ! a)]) ?h1 al ! i
           = (if i \<in> snd ` set al then f (?h1 ! i) else ?h1 ! i)"
    by simp_all
  show ?case
  proof (intro conjI allI impI)
    show "length (foldl (\<lambda>h (k, a). h[a := f (h ! a)]) h (x # al)) = length h"
      using len x by simp
  next
    fix i assume i: "i < length h"
    show "foldl (\<lambda>h (k, a). h[a := f (h ! a)]) h (x # al) ! i
           = (if i \<in> snd ` set (x # al) then f (h ! i) else h ! i)"
    proof (cases "i = a0")
      case True
      with nth [OF i] a0 a0h x show ?thesis by simp
    next
      case False
      with nth [OF i] x show ?thesis by simp
    qed
  qed
qed

lemma CommitBlock_fields:
  "senders (CommitBlock w b) = senders w" "validators (CommitBlock w b) = validators w"
  "quorum (CommitBlock w b) = quorum w" "txs (CommitBlock w b) = txs w"
  "votes (CommitBlock w b) = votes w"
  by (simp_all add: CommitBlock_def)

lemma CommitBlock_heap:
  assumes inv: "wendy_inv w"
  shows "length (heap (CommitBlock w b)) = length (heap w)"
    and "i < length (heap w) \<Longrightarrow> heap (CommitBlock w b) ! i
           = (if i \<in> snd ` set (senders w) then UpdateTxSet (heap w ! i) (Txs b) else heap w ! i)"
proof -
  from inv have d: "distinct (map snd (senders w))"
    and v: "list_all (\<lambda>(k, a). a < length (heap w)) (senders w)"
    by (simp_all add: wendy_inv_def)
  note L = commit_loop_nth [OF d v, of "\<lambda>s. UpdateTxSet s (Txs b)"]
  show "length (heap (CommitBlock w b)) = length (heap w)"
    using L by (simp add: CommitBlock_def)
  show "i < length (heap w) \<Longrightarrow> heap (CommitBlock w b) ! i
           = (if i \<in> snd ` set (senders w) then UpdateTxSet (heap w ! i) (Txs b) else heap w ! i)"
    using L by (simp add: CommitBlock_def)
qed

lemma wendy_inv_CommitBlock:
  assumes inv: "wendy_inv w"
  shows "wendy_inv (CommitBlock w b)"
  using inv unfolding wendy_inv_def CommitBlock_fields CommitBlock_heap(1) [OF inv] .

lemma reachable_wendy_inv: "reachable Q w \<Longrightarrow> wendy_inv w"
  by (induction rule: reachable.induct)
    (simp_all add: wendy_inv_New wendy_inv_UpdateValidatorSet wendy_inv_AddTx
      wendy_inv_AddVote wendy_inv_CommitBlock)


lemma sender_of_Some_iff:
  "sender_of w k = Some s \<longleftrightarrow> (\<exists>a. map_of (senders w) k = Some a \<and> s = heap w ! a)"
  by (auto simp: sender_of_def)

lemma count_senders_sender_of:
  "count_senders w fn = card {k. \<exists>s. sender_of w k = Some s \<and> fn s}"
  unfolding count_senders_def sender_of_Some_iff by (rule arg_cong [where f = card]) blast

lemma finite_satisfying: "finite {k. \<exists>s. sender_of w k = Some s \<and> fn s}"
  by (rule finite_subset [of _ "dom (map_of (senders w))"])
    (auto simp: sender_of_Some_iff finite_dom_map_of)

lemma AddVote_sender_of:
  assumes inv: "wendy_inv w"
  shows "sender_of (snd (AddVote w v)) k =
     (if k = Pubkey v
      then Some (snd (AddVote_s (case sender_of w (Pubkey v) of Some s \<Rightarrow> s
                                 | None \<Rightarrow> NewSender (Pubkey v)) v))
      else sender_of w k)"
proof -
  from inv have i: "inj_alist (senders w)"
    and b: "\<And>k a. map_of (senders w) k = Some a \<Longrightarrow> a < length (heap w)"
    using inv [unfolded wendy_inv_iff] by blast+
  show ?thesis
  proof (cases "map_of (senders w) (Pubkey v)")
    case None
    show ?thesis
    proof (cases "k = Pubkey v")
      case True
      then show ?thesis
        by (simp add: AddVote_None(1) [OF None] sender_of_def None update_conv')
    next
      case False
      show ?thesis
      proof (cases "map_of (senders w) k")
        case None
        with False show ?thesis
          by (simp add: AddVote_None(1) [OF \<open>map_of (senders w) (Pubkey v) = None\<close>]
              sender_of_def update_conv')
      next
        case (Some a')
        with False b [OF Some] show ?thesis
          by (simp add: AddVote_None(1) [OF None] sender_of_def update_conv' nth_append)
      qed
    qed
  next
    case (Some a)
    note a = b [OF Some]
    show ?thesis
    proof (cases "k = Pubkey v")
      case True
      with a show ?thesis
        by (simp add: AddVote_Some(1) [OF Some] sender_of_def Some)
    next
      case False
      show ?thesis
      proof (cases "map_of (senders w) k")
        case None
        with False show ?thesis
          by (simp add: AddVote_Some(1) [OF Some] sender_of_def)
      next
        case (Some a')
        have "a' \<noteq> a"
          using i Some \<open>map_of (senders w) (Pubkey v) = Some a\<close> False
          unfolding inj_alist_def by blast
        with False Some show ?thesis
          by (simp add: AddVote_Some(1) [OF \<open>map_of (senders w) (Pubkey v) = Some a\<close>]
              sender_of_def)
      qed
    qed
  qed
qed

lemma CommitBlock_sender_of:
  assumes inv: "wendy_inv w"
  shows "sender_of (CommitBlock w b) k
           = map_option (\<lambda>s. UpdateTxSet s (Txs b)) (sender_of w k)"
proof (cases "map_of (senders w) k")
  case None
  then show ?thesis by (simp add: sender_of_def CommitBlock_fields)
next
  case (Some a)
  from inv have d: "distinct (map fst (senders w))"
    and b: "\<And>k a. map_of (senders w) k = Some a \<Longrightarrow> a < length (heap w)"
    using inv [unfolded wendy_inv_iff] by blast+
  have "(k, a) \<in> set (senders w)" using Some by (rule map_of_SomeD)
  then have "a \<in> snd ` set (senders w)" by force
  with CommitBlock_heap(2) [OF inv b [OF Some], of b] Some show ?thesis
    by (simp add: sender_of_def CommitBlock_fields)
qed

subsection \<open>Runs and evaluation\<close>

lemma reachable_foldl: "reachable Q w \<Longrightarrow> reachable Q (foldl (step Q) w calls)"
proof (induction calls arbitrary: w)
  case Nil
  then show ?case by simp
next
  case (Cons c calls)
  have "reachable Q (step Q w c)"
    using Cons.prems by (cases c) (simp_all add: reachable.intros)
  then show ?case using Cons.IH by simp
qed

lemma reachable_run: "reachable Q (run Q calls)"
  unfolding run_def by (rule reachable_foldl [OF r_New])

lemma run_snoc: "run Q (calls @ [c]) = step Q (run Q calls) c"
  by (simp add: run_def)

lemma reachable_is_run: "reachable Q w \<Longrightarrow> \<exists>calls. w = run Q calls"
proof (induction rule: reachable.induct)
  case r_New
  have "New = run Q []" by (simp add: run_def)
  then show ?case by blast
next
  case (r_UpdateValidatorSet w vs)
  then obtain calls where "w = run Q calls" by blast
  then have "UpdateValidatorSet Q w vs = run Q (calls @ [CallUpdateValidatorSet vs])"
    by (simp add: run_snoc)
  then show ?case by blast
next
  case (r_AddTx w tx)
  then obtain calls where "w = run Q calls" by blast
  then have "snd (AddTx w tx) = run Q (calls @ [CallAddTx tx])"
    by (simp add: run_snoc)
  then show ?case by blast
next
  case (r_AddVote w v)
  then obtain calls where "w = run Q calls" by blast
  then have "snd (AddVote w v) = run Q (calls @ [CallAddVote v])"
    by (simp add: run_snoc)
  then show ?case by blast
next
  case (r_CommitBlock w block)
  then obtain calls where "w = run Q calls" by blast
  then have "CommitBlock w block = run Q (calls @ [CallCommitBlock block])"
    by (simp add: run_snoc)
  then show ?case by blast
qed

text \<open>The definitions a concrete scenario is evaluated with.\<close>

lemmas scenario_defs = testTx0_def testTx1_def testTx2_def testTx3_def testTx4_def testTx5_def
  pub0_def pub1_def pub2_def pub3_def newVote_def newTestTxStr_def tx_gapped_def

lemmas op_defs = run_def New_def UpdateValidatorSet_def AddVote_def AddTx_def CommitBlock_def
  sender_for_def NewSender_def AddVote_s_def UpdateTxSet_def commit_tx_def Let_def
  quorum_of_two_thirds

lemmas pred_defs = IsBlocked_def IsBlockedBy_def hasQuorum_def sender_objs_def Seen_def
  Before_def gap_free_def

subsection \<open>Duality of \<^verbatim>\<open>IsBlocked\<close>\<close>

lemma gapped_senders:
  "sender_objs gapped =
     [snd (AddVote_s (snd (AddVote_s (NewSender pub0) (newVote pub0 0 testTx0)))
            (newVote pub0 2 tx_gapped)),
      snd (AddVote_s (snd (AddVote_s (NewSender pub1) (newVote pub1 0 testTx0)))
            (newVote pub1 2 tx_gapped)),
      snd (AddVote_s (snd (AddVote_s (NewSender pub2) (newVote pub2 0 testTx0)))
            (newVote pub2 2 tx_gapped)),
      NewSender pub3]"
  by (simp add: gapped_def gapped_calls_def sender_objs_def scenario_defs op_defs)

lemma gapped_quorum: "quorum gapped = 3"
  by (simp add: gapped_def gapped_calls_def scenario_defs op_defs)

text \<open>
  Claim C1, as the code has it. In every reachable state with a positive quorum,
  \<^verbatim>\<open>IsBlocked(tx)\<close> is true iff fewer than \<^verbatim>\<open>quorum\<close> of the current senders satisfy
  \<^verbatim>\<open>Seen(tx)\<close>, whatever the method \<^verbatim>\<open>Sender.Seen\<close> computes from the sender object and
  the transaction: it is the parameter \<open>seen\<close>. The quorum is positive after every
  \<^verbatim>\<open>UpdateValidatorSet\<close> (lemma \<open>quorum_of_positive\<close>, for a threshold that is not
  negative). The theorem says nothing of a state whose quorum is not positive.
\<close>

theorem IsBlocked_duality:
  "reachable Q w \<Longrightarrow> 0 < quorum w \<Longrightarrow>
     IsBlockedWith seen w tx \<longleftrightarrow> int (count_senders w (\<lambda>s. seen s tx)) < quorum w"
proof -
  assume r: "reachable Q w" and q: "0 < quorum w"
  have d: "distinct (map fst (senders w))"
    using reachable_wendy_inv [OF r] by (simp add: wendy_inv_def)
  show ?thesis
    unfolding IsBlockedWith_def hasQuorum_iff [OF d] using q by linarith
qed

text \<open>
  The theorem at the state of \<^verbatim>\<open>TestIsBlockedBy\<close> after \<^verbatim>\<open>3of4\<close>, with the \<^verbatim>\<open>Seen\<close> of the
  specification: the quorum is 3, three senders have seen \<^verbatim>\<open>testTx0\<close>, which is not
  blocked, and none has seen \<^verbatim>\<open>testTx2\<close>, which is. And at the end of
  \<^verbatim>\<open>TestIsBlocked/Gapped\<close>, with a predicate that does not count an entry above a gap:
  fewer than three senders satisfy it for the gapped transaction, which is blocked,
  as the test requires.
\<close>

theorem IsBlocked_duality_witness:
  "reachable (2/3) blockedby_3of4 \<and> 0 < quorum blockedby_3of4
   \<and> \<not> IsBlockedWith Seen blockedby_3of4 testTx0
   \<and> \<not> int (count_senders blockedby_3of4 (\<lambda>s. Seen s testTx0)) < quorum blockedby_3of4
   \<and> IsBlockedWith Seen blockedby_3of4 testTx2
   \<and> int (count_senders blockedby_3of4 (\<lambda>s. Seen s testTx2)) < quorum blockedby_3of4
   \<and> reachable (2/3) gapped \<and> 0 < quorum gapped
   \<and> IsBlockedWith seen_gap_free gapped tx_gapped
   \<and> int (count_senders gapped (\<lambda>s. seen_gap_free s tx_gapped)) < quorum gapped"
proof -
  have r: "reachable (2/3) blockedby_3of4"
    unfolding blockedby_3of4_def by (rule reachable_run)
  have q: "0 < quorum blockedby_3of4"
    by (simp add: blockedby_3of4_def blockedby_calls_def scenario_defs op_defs)
  have nb: "\<not> IsBlockedWith Seen blockedby_3of4 testTx0"
    by (simp add: IsBlockedWith_def blockedby_3of4_def blockedby_calls_def scenario_defs
        op_defs pred_defs)
  have b: "IsBlockedWith Seen blockedby_3of4 testTx2"
    by (simp add: IsBlockedWith_def blockedby_3of4_def blockedby_calls_def scenario_defs
        op_defs pred_defs)
  have r': "reachable (2/3) gapped"
    unfolding gapped_def by (rule reachable_run)
  have q': "0 < quorum gapped"
    by (simp add: gapped_quorum)
  have g: "IsBlockedWith seen_gap_free gapped tx_gapped"
    by (simp add: IsBlockedWith_def hasQuorum_def gapped_senders gapped_quorum
        seen_gap_free_def gap_free_def NewSender_def AddVote_s_def scenario_defs
        eval_nat_numeral)
  show ?thesis
    using r q nb b r' q' g
      IsBlocked_duality [OF r q, of Seen testTx0]
      IsBlocked_duality [OF r q, of Seen testTx2]
      IsBlocked_duality [OF r' q', of seen_gap_free tx_gapped]
    by simp
qed

text \<open>
  Claim C1 as stated fails twice. In the fresh state no sender has seen the
  transaction and the quorum is 0, so "fewer than quorum" is false, and \<^verbatim>\<open>IsBlocked\<close>
  is true: the loop of \<^verbatim>\<open>hasQuorum\<close> compares the counter with the quorum only after
  an increment. And at the end of \<^verbatim>\<open>TestIsBlocked/Gapped\<close> the quorum is 3 and three
  senders hold the hash of the gapped transaction in \<open>by_hash\<close>, at the sequence number
  2 with nothing at 1, so by the claim's \<^verbatim>\<open>Seen\<close> the transaction is not blocked; the
  test requires \<^verbatim>\<open>IsBlocked\<close> to be true there ("should be blocked if seq is gapped").
\<close>

theorem IsBlocked_claim_counterexample:
  "IsBlocked New testTx0 \<and> \<not> int (seen_count New testTx0) < quorum New
   \<and> 0 < quorum gapped
   \<and> list_all (\<lambda>k. \<exists>s. sender_of gapped k = Some s \<and> by_hash s (Hash tx_gapped) = Some 2
                       \<and> s_votes s 1 = None)
        [pub0, pub1, pub2]
   \<and> \<not> int (seen_count gapped tx_gapped) < quorum gapped"
proof -
  have fresh: "IsBlocked New testTx0 \<and> \<not> int (seen_count New testTx0) < quorum New"
    by (simp add: IsBlocked_def hasQuorum_def sender_objs_def seen_count_def count_senders_def
        New_def)
  have r: "reachable (2/3) gapped"
    unfolding gapped_def by (rule reachable_run)
  have d: "distinct (map fst (senders gapped))"
    using reachable_wendy_inv [OF r] by (simp add: wendy_inv_def)
  have "hasQuorum gapped (\<lambda>s. Seen s tx_gapped)"
    by (simp add: hasQuorum_def gapped_senders gapped_quorum Seen_def NewSender_def
        AddVote_s_def scenario_defs)
  then have n: "\<not> int (seen_count gapped tx_gapped) < quorum gapped"
    unfolding hasQuorum_iff [OF d] seen_count_def by linarith
  have l: "list_all (\<lambda>k. \<exists>s. sender_of gapped k = Some s \<and> by_hash s (Hash tx_gapped) = Some 2
                       \<and> s_votes s 1 = None)
        [pub0, pub1, pub2]"
    by (simp add: gapped_def gapped_calls_def sender_of_def scenario_defs op_defs)
  show ?thesis
    using fresh n l by (simp add: gapped_quorum)
qed


subsection \<open>\<^verbatim>\<open>IsBlockedBy\<close> under further votes\<close>

lemma gap_free_iff:
  "gap_free s k \<longleftrightarrow> (\<forall>j. j \<le> k \<longrightarrow> s_votes s j \<noteq> None \<or> j \<in> pruned s)"
proof -
  have "set [0..<Suc k] = {j. j \<le> k}"
    by auto
  then show ?thesis
    by (simp add: gap_free_def list_all_iff)
qed

lemma AddVote_s_rejected:
  "s_votes s (Seq v) \<noteq> None \<or> by_hash s (TxHash v) \<noteq> None \<Longrightarrow> AddVote_s s v = (False, s)"
  by (simp add: AddVote_s_def)

lemma AddVote_s_accepted:
  "s_votes s (Seq v) = None \<Longrightarrow> by_hash s (TxHash v) = None \<Longrightarrow>
     AddVote_s s v = (True, s\<lparr>s_votes := (s_votes s)(Seq v \<mapsto> v),
                               by_hash := (by_hash s)(TxHash v \<mapsto> Seq v)\<rparr>)"
  by (simp add: AddVote_s_def)

text \<open>
  On the sender log of the specification, a vote that is not cast at a pruned
  sequence number leaves \<^verbatim>\<open>Before(a, b)\<close> true: a vote at a taken sequence number or for
  a recorded hash is rejected, and an accepted vote for \<open>b\<close> lands above the gap-free
  prefix.
\<close>

lemma Before_AddVote_s:
  assumes B: "Before s a b" and f: "Seq v \<notin> pruned s"
  shows "Before (snd (AddVote_s s v)) a b"
proof (cases "s_votes s (Seq v) \<noteq> None \<or> by_hash s (TxHash v) \<noteq> None")
  case True
  then show ?thesis using B by (simp add: AddVote_s_rejected)
next
  case False
  then have n1: "s_votes s (Seq v) = None" and n2: "by_hash s (TxHash v) = None" by simp_all
  let ?s' = "s\<lparr>s_votes := (s_votes s)(Seq v \<mapsto> v), by_hash := (by_hash s)(TxHash v \<mapsto> Seq v)\<rparr>"
  from B obtain s1 where s1: "by_hash s (Hash a) = Some s1"
    by (auto simp: Before_def split: option.splits)
  have ha: "TxHash v \<noteq> Hash a" using n2 s1 by auto
  have s1': "by_hash ?s' (Hash a) = Some s1" using ha s1 by simp
  have "Before ?s' a b"
  proof (cases "by_hash s (Hash b)")
    case (Some s2)
    then have hb: "TxHash v \<noteq> Hash b" using n2 by auto
    from B s1 Some have "s1 < s2" by (simp add: Before_def)
    then show ?thesis using s1' Some hb by (simp add: Before_def)
  next
    case None
    from B s1 None have nc: "Hash b \<notin> committed s" and g: "gap_free s s1"
      by (simp_all add: Before_def)
    show ?thesis
    proof (cases "TxHash v = Hash b")
      case True
      have "s1 < Seq v"
      proof (rule ccontr)
        assume "\<not> s1 < Seq v"
        then have "Seq v \<le> s1" by simp
        with g have "s_votes s (Seq v) \<noteq> None \<or> Seq v \<in> pruned s" by (simp add: gap_free_iff)
        with n1 f show False by simp
      qed
      then show ?thesis using s1' True by (simp add: Before_def)
    next
      case False
      have "gap_free ?s' s1" using g by (simp add: gap_free_iff)
      then show ?thesis using s1' None nc False by (simp add: Before_def)
    qed
  qed
  then show ?thesis using n1 n2 by (simp add: AddVote_s_accepted)
qed

text \<open>
  \<^verbatim>\<open>Wendy.AddVote\<close> mutates the sender object of the voting key and no other, and
  leaves the quorum alone: a predicate that the vote does not take from the log of
  its own sender is satisfied by as many senders as before, or by more.
\<close>

lemma count_senders_AddVote_mono:
  assumes inv: "wendy_inv w"
    and mono: "\<And>s. sender_of w (Pubkey v) = Some s \<Longrightarrow> fn s \<Longrightarrow> fn (snd (AddVote_s s v))"
  shows "count_senders w fn \<le> count_senders (snd (AddVote w v)) fn"
proof -
  have "{k. \<exists>s. sender_of w k = Some s \<and> fn s}
      \<subseteq> {k. \<exists>s. sender_of (snd (AddVote w v)) k = Some s \<and> fn s}"
  proof
    fix k assume "k \<in> {k. \<exists>s. sender_of w k = Some s \<and> fn s}"
    then obtain s where s: "sender_of w k = Some s" "fn s" by blast
    show "k \<in> {k. \<exists>s. sender_of (snd (AddVote w v)) k = Some s \<and> fn s}"
    proof (cases "k = Pubkey v")
      case True
      with s have "sender_of (snd (AddVote w v)) k = Some (snd (AddVote_s s v))"
        by (simp add: AddVote_sender_of [OF inv])
      moreover from True s have "fn (snd (AddVote_s s v))"
        by (intro mono) simp_all
      ultimately show ?thesis by blast
    next
      case False
      with s have "sender_of (snd (AddVote w v)) k = Some s"
        by (simp add: AddVote_sender_of [OF inv])
      with s(2) show ?thesis by blast
    qed
  qed
  then show ?thesis
    unfolding count_senders_sender_of by (rule card_mono [OF finite_satisfying])
qed

lemma hasQuorum_AddVote:
  assumes inv: "wendy_inv w"
    and mono: "\<And>s. sender_of w (Pubkey v) = Some s \<Longrightarrow> fn s \<Longrightarrow> fn (snd (AddVote_s s v))"
    and q: "hasQuorum w fn"
  shows "hasQuorum (snd (AddVote w v)) fn"
proof -
  have d: "distinct (map fst (senders w))" using inv by (simp add: wendy_inv_def)
  have d': "distinct (map fst (senders (snd (AddVote w v))))"
    using wendy_inv_AddVote [OF inv] by (simp add: wendy_inv_def)
  have "count_senders w fn \<le> count_senders (snd (AddVote w v)) fn"
    by (rule count_senders_AddVote_mono [OF inv]) (rule mono)
  with q show ?thesis
    unfolding hasQuorum_iff [OF d] hasQuorum_iff [OF d'] AddVote_fields by simp
qed

text \<open>
  So in a reachable state where \<^verbatim>\<open>IsBlockedBy(a, b)\<close> is false, it is still false after
  an \<^verbatim>\<open>AddVote\<close>, from an existing or a new sender, unless the vote is cast at a
  sequence number that \<^verbatim>\<open>CommitBlock\<close> has pruned from the log of its sender.
\<close>

lemma IsBlockedBy_AddVote:
  assumes r: "reachable Q w" and nb: "\<not> IsBlockedBy w a b"
    and f: "\<And>s. sender_of w (Pubkey v) = Some s \<Longrightarrow> Seq v \<notin> pruned s"
  shows "\<not> IsBlockedBy (snd (AddVote w v)) a b"
proof -
  have inv: "wendy_inv w" by (rule reachable_wendy_inv [OF r])
  have q: "hasQuorum w (\<lambda>s. Before s a b)"
    using nb by (simp add: IsBlockedBy_def)
  have "hasQuorum (snd (AddVote w v)) (\<lambda>s. Before s a b)"
  proof (rule hasQuorum_AddVote [OF inv])
    fix s assume "sender_of w (Pubkey v) = Some s" "Before s a b"
    then show "Before (snd (AddVote_s s v)) a b"
      by (intro Before_AddVote_s f)
  next
    show "hasQuorum w (\<lambda>s. Before s a b)" by (rule q)
  qed
  then show ?thesis by (simp add: IsBlockedBy_def)
qed

text \<open>
  A vote at a pruned sequence number is accepted by the sender log of the
  specification, and can take \<^verbatim>\<open>Before(a, b)\<close> from the log: \<open>pub0\<close> has voted
  \<^verbatim>\<open>testTx0\<close> at 0 and \<^verbatim>\<open>testTx1\<close> at 1, and \<^verbatim>\<open>testTx0\<close> is committed; \<^verbatim>\<open>testTx1\<close> is before
  the unseen \<^verbatim>\<open>testTx2\<close>, the pruned 0 being accounted for, until \<open>pub0\<close> votes
  \<^verbatim>\<open>testTx2\<close> at 0. Whether the \<^verbatim>\<open>Sender\<close> of the repository accepts such a vote is
  not in the sources.
\<close>

lemma pruned_seq_revokes:
  "\<not> IsBlockedBy pruned_log testTx1 testTx2
   \<and> fst (AddVote pruned_log (newVote pub0 0 testTx2))
   \<and> IsBlockedBy (snd (AddVote pruned_log (newVote pub0 0 testTx2))) testTx1 testTx2"
  by (simp add: pruned_log_def block_tx0_def scenario_defs op_defs pred_defs)


subsection \<open>Retention of senders across \<^verbatim>\<open>UpdateValidatorSet\<close>\<close>

lemma UpdateValidatorSet_senders:
  assumes inv: "wendy_inv w"
  shows "fst ` set (senders (UpdateValidatorSet Q w vs)) = set vs"
    and "\<exists>ext. heap (UpdateValidatorSet Q w vs) = heap w @ ext"
    and "v \<in> set vs \<Longrightarrow> map_of (senders w) v = Some a \<Longrightarrow>
           map_of (senders (UpdateValidatorSet Q w vs)) v = Some a
           \<and> heap (UpdateValidatorSet Q w vs) ! a = heap w ! a"
    and "v \<in> set vs \<Longrightarrow> map_of (senders w) v = None \<Longrightarrow>
           \<exists>a'. map_of (senders (UpdateValidatorSet Q w vs)) v = Some a'
              \<and> length (heap w) \<le> a'
              \<and> heap (UpdateValidatorSet Q w vs) ! a' = NewSender v"
    and "v \<notin> set vs \<Longrightarrow> map_of (senders (UpdateValidatorSet Q w vs)) v = None"
proof -
  obtain new h where R: "retain_senders (senders w) vs [] (heap w) = (new, h)"
    by (cases "retain_senders (senders w) vs [] (heap w)")
  have O1: "\<forall>k a. map_of (senders w) k = Some a \<longrightarrow> a < length (heap w)"
    and O2: "inj_alist (senders w)"
    using inv [unfolded wendy_inv_iff] by blast+
  from retain_senders_inv [OF O1 O2 retain_inv_Nil R]
  have J: "retain_inv (senders w) (length (heap w)) new h"
    and K: "fst ` set new = set vs"
    and E: "\<exists>ext. h = heap w @ ext"
    by simp_all
  have entry: "\<And>k a. map_of new k = Some a \<Longrightarrow>
      a < length h \<and> (if a < length (heap w) then map_of (senders w) k = Some a
                      else map_of (senders w) k = None \<and> h ! a = NewSender k)"
    using J unfolding retain_inv_def by blast
  have S: "senders (UpdateValidatorSet Q w vs) = new" and H: "heap (UpdateValidatorSet Q w vs) = h"
    by (simp_all add: UpdateValidatorSet_fields [OF R])
  show "fst ` set (senders (UpdateValidatorSet Q w vs)) = set vs"
    unfolding S by (rule K)
  show "\<exists>ext. heap (UpdateValidatorSet Q w vs) = heap w @ ext"
    unfolding H by (rule E)
  show "v \<notin> set vs \<Longrightarrow> map_of (senders (UpdateValidatorSet Q w vs)) v = None"
    unfolding S using K by (simp add: map_of_eq_None_iff)
  {
    assume v: "v \<in> set vs"
    then have "v \<in> fst ` set new" using K by simp
    then obtain a' where a': "map_of new v = Some a'"
      by (cases "map_of new v") (simp_all add: map_of_eq_None_iff)
    note e = entry [OF a']
    {
      assume old: "map_of (senders w) v = Some a"
      have "a' < length (heap w)"
      proof (rule ccontr)
        assume "\<not> a' < length (heap w)"
        with e have "map_of (senders w) v = None" by simp
        with old show False by simp
      qed
      with e old have eq: "a' = a" by simp
      have "a < length (heap w)" using O1 old by blast
      with E have "h ! a = heap w ! a" by (auto simp: nth_append)
      with a' eq show "map_of (senders (UpdateValidatorSet Q w vs)) v = Some a
           \<and> heap (UpdateValidatorSet Q w vs) ! a = heap w ! a"
        unfolding S H by simp
    }
    {
      assume old: "map_of (senders w) v = None"
      have "\<not> a' < length (heap w)"
      proof
        assume "a' < length (heap w)"
        with e have "map_of (senders w) v = Some a'" by simp
        with old show False by simp
      qed
      with e a' show "\<exists>a'. map_of (senders (UpdateValidatorSet Q w vs)) v = Some a'
              \<and> length (heap w) \<le> a'
              \<and> heap (UpdateValidatorSet Q w vs) ! a' = NewSender v"
        unfolding S H by simp
    }
  }
qed




subsection \<open>\<^verbatim>\<open>CommitBlock\<close> prunes the sender logs and leaves the pool\<close>

lemma UpdateValidatorSet_sender_of:
  assumes inv: "wendy_inv w"
  shows "sender_of (UpdateValidatorSet Q w vs) k =
     (if k \<in> set vs
      then Some (case sender_of w k of Some s \<Rightarrow> s | None \<Rightarrow> NewSender k)
      else None)"
proof (cases "k \<in> set vs")
  case False
  then show ?thesis
    using UpdateValidatorSet_senders(5) [OF inv, of k vs Q] by (simp add: sender_of_def)
next
  case True
  show ?thesis
  proof (cases "map_of (senders w) k")
    case None
    from UpdateValidatorSet_senders(4) [OF inv True None, of Q] None True
    show ?thesis by (auto simp: sender_of_def)
  next
    case (Some a)
    from UpdateValidatorSet_senders(3) [OF inv True Some, of Q] Some True
    show ?thesis by (simp add: sender_of_def)
  qed
qed

lemma sender_inv_NewSender: "sender_inv (NewSender k)"
  by (simp add: sender_inv_def NewSender_def)

lemma sender_inv_AddVote_s:
  assumes "sender_inv s"
  shows "sender_inv (snd (AddVote_s s v))"
proof (cases "s_votes s (Seq v) \<noteq> None \<or> by_hash s (TxHash v) \<noteq> None")
  case True
  then show ?thesis using assms by (simp add: AddVote_s_rejected)
next
  case False
  then have n1: "s_votes s (Seq v) = None" and n2: "by_hash s (TxHash v) = None" by simp_all
  have a: "\<And>k u. s_votes s k = Some u \<Longrightarrow> by_hash s (TxHash u) = Some k"
    and b: "\<And>h k. by_hash s h = Some k \<Longrightarrow> \<exists>u. s_votes s k = Some u \<and> TxHash u = h"
    using assms unfolding sender_inv_def by blast+
  have "sender_inv (s\<lparr>s_votes := (s_votes s)(Seq v \<mapsto> v),
                        by_hash := (by_hash s)(TxHash v \<mapsto> Seq v)\<rparr>)"
    unfolding sender_inv_def
  proof (intro conjI allI impI)
    fix k u
    assume "s_votes (s\<lparr>s_votes := (s_votes s)(Seq v \<mapsto> v),
                        by_hash := (by_hash s)(TxHash v \<mapsto> Seq v)\<rparr>) k = Some u"
    then have c: "(k = Seq v \<and> u = v) \<or> (k \<noteq> Seq v \<and> s_votes s k = Some u)"
      by (auto split: if_splits)
    show "by_hash (s\<lparr>s_votes := (s_votes s)(Seq v \<mapsto> v),
                        by_hash := (by_hash s)(TxHash v \<mapsto> Seq v)\<rparr>) (TxHash u) = Some k"
    proof (cases "k = Seq v")
      case True
      with c n1 show ?thesis by auto
    next
      case False
      with c have u: "s_votes s k = Some u" by simp
      from a [OF u] n2 have "TxHash u \<noteq> TxHash v" by auto
      with a [OF u] show ?thesis by simp
    qed
  next
    fix h k
    assume "by_hash (s\<lparr>s_votes := (s_votes s)(Seq v \<mapsto> v),
                        by_hash := (by_hash s)(TxHash v \<mapsto> Seq v)\<rparr>) h = Some k"
    then have c: "(h = TxHash v \<and> k = Seq v) \<or> (h \<noteq> TxHash v \<and> by_hash s h = Some k)"
      by (auto split: if_splits)
    show "\<exists>u. s_votes (s\<lparr>s_votes := (s_votes s)(Seq v \<mapsto> v),
                        by_hash := (by_hash s)(TxHash v \<mapsto> Seq v)\<rparr>) k = Some u \<and> TxHash u = h"
    proof (cases "h = TxHash v")
      case True
      with c n2 show ?thesis by auto
    next
      case False
      with c have bh: "by_hash s h = Some k" by simp
      from b [OF bh] obtain u where u: "s_votes s k = Some u" "TxHash u = h" by blast
      with n1 have "k \<noteq> Seq v" by auto
      with u show ?thesis by simp
    qed
  qed
  then show ?thesis using n1 n2 by (simp add: AddVote_s_accepted)
qed

lemma sender_inv_commit_tx:
  assumes "sender_inv s"
  shows "sender_inv (commit_tx tx s)"
proof -
  have a: "\<And>k u. s_votes s k = Some u \<Longrightarrow> by_hash s (TxHash u) = Some k"
    and b: "\<And>h k. by_hash s h = Some k \<Longrightarrow> \<exists>u. s_votes s k = Some u \<and> TxHash u = h"
    using assms unfolding sender_inv_def by blast+
  show ?thesis
  proof (cases "by_hash s (Hash tx)")
    case None
    have eq: "commit_tx tx s = s\<lparr>committed := insert (Hash tx) (committed s)\<rparr>"
      using None by (simp add: commit_tx_def fun_upd_idem)
    show ?thesis unfolding eq using assms by (simp add: sender_inv_def)
  next
    case (Some q)
    have eq: "commit_tx tx s = s\<lparr>s_votes := (s_votes s)(q := None),
        by_hash := (by_hash s)(Hash tx := None),
        committed := insert (Hash tx) (committed s),
        pruned := insert q (pruned s)\<rparr>"
      using Some by (simp add: commit_tx_def)
    show ?thesis
      unfolding eq sender_inv_def
    proof (intro conjI allI impI)
      fix k u
      assume "s_votes (s\<lparr>s_votes := (s_votes s)(q := None),
        by_hash := (by_hash s)(Hash tx := None),
        committed := insert (Hash tx) (committed s),
        pruned := insert q (pruned s)\<rparr>) k = Some u"
      then have k: "k \<noteq> q" and u: "s_votes s k = Some u" by (auto split: if_splits)
      have "TxHash u \<noteq> Hash tx"
      proof
        assume "TxHash u = Hash tx"
        with a [OF u] Some have "k = q" by simp
        with k show False by simp
      qed
      with a [OF u] show "by_hash (s\<lparr>s_votes := (s_votes s)(q := None),
        by_hash := (by_hash s)(Hash tx := None),
        committed := insert (Hash tx) (committed s),
        pruned := insert q (pruned s)\<rparr>) (TxHash u) = Some k"
        by simp
    next
      fix h k
      assume "by_hash (s\<lparr>s_votes := (s_votes s)(q := None),
        by_hash := (by_hash s)(Hash tx := None),
        committed := insert (Hash tx) (committed s),
        pruned := insert q (pruned s)\<rparr>) h = Some k"
      then have h: "h \<noteq> Hash tx" and bh: "by_hash s h = Some k" by (auto split: if_splits)
      from b [OF bh] obtain u where u: "s_votes s k = Some u" "TxHash u = h" by blast
      have "k \<noteq> q"
      proof
        assume "k = q"
        from b [OF Some] obtain u' where "s_votes s q = Some u'" "TxHash u' = Hash tx" by blast
        with u \<open>k = q\<close> h show False by simp
      qed
      with u show "\<exists>v. s_votes (s\<lparr>s_votes := (s_votes s)(q := None),
        by_hash := (by_hash s)(Hash tx := None),
        committed := insert (Hash tx) (committed s),
        pruned := insert q (pruned s)\<rparr>) k = Some v \<and> TxHash v = h"
        by simp
    qed
  qed
qed

lemma commit_tx_fields:
  "by_hash (commit_tx tx s) = (by_hash s)(Hash tx := None)"
  "committed (commit_tx tx s) = insert (Hash tx) (committed s)"
  by (simp_all add: commit_tx_def)

lemma UpdateTxSet_props:
  "sender_inv s \<Longrightarrow> sender_inv (UpdateTxSet s ts)"
  "committed (UpdateTxSet s ts) = committed s \<union> Hash ` set ts"
  "by_hash (UpdateTxSet s ts) h = (if h \<in> Hash ` set ts then None else by_hash s h)"
  unfolding UpdateTxSet_def
  by (induction ts arbitrary: s) (auto simp: sender_inv_commit_tx commit_tx_fields)

lemma UpdateTxSet_prunes:
  assumes inv: "sender_inv s" and tx: "tx \<in> set ts"
  shows "Seen (UpdateTxSet s ts) tx"
    and "by_hash (UpdateTxSet s ts) (Hash tx) = None"
    and "s_votes (UpdateTxSet s ts) k = Some v \<Longrightarrow> TxHash v \<noteq> Hash tx"
proof -
  show "Seen (UpdateTxSet s ts) tx"
    using tx by (simp add: Seen_def UpdateTxSet_props(2))
  show n: "by_hash (UpdateTxSet s ts) (Hash tx) = None"
    using tx by (simp add: UpdateTxSet_props(3))
  assume "s_votes (UpdateTxSet s ts) k = Some v"
  with UpdateTxSet_props(1) [OF inv, of ts]
  have "by_hash (UpdateTxSet s ts) (TxHash v) = Some k"
    unfolding sender_inv_def by blast
  with n show "TxHash v \<noteq> Hash tx" by auto
qed

text \<open>
  A property of sender logs that an empty log has and that \<^verbatim>\<open>Sender.AddVote\<close> and
  \<^verbatim>\<open>Sender.UpdateTxSet\<close> keep holds of every sender of every reachable state.
\<close>

lemma reachable_senders_induct:
  assumes new: "\<And>k. P (NewSender k)"
    and add: "\<And>s v. P s \<Longrightarrow> P (snd (AddVote_s s v))"
    and commit: "\<And>s ts. P s \<Longrightarrow> P (UpdateTxSet s ts)"
  shows "reachable Q w \<Longrightarrow> sender_of w k = Some s \<Longrightarrow> P s"
proof (induction arbitrary: k s rule: reachable.induct)
  case r_New
  then show ?case by (simp add: sender_of_def New_def)
next
  case (r_UpdateValidatorSet w vs)
  have inv: "wendy_inv w" by (rule reachable_wendy_inv [OF r_UpdateValidatorSet.hyps])
  show ?case
  proof (cases "sender_of w k")
    case None
    with r_UpdateValidatorSet.prems show ?thesis
      by (auto simp: UpdateValidatorSet_sender_of [OF inv] new split: if_splits)
  next
    case (Some s0)
    with r_UpdateValidatorSet.prems r_UpdateValidatorSet.IH [OF Some] show ?thesis
      by (auto simp: UpdateValidatorSet_sender_of [OF inv] split: if_splits)
  qed
next
  case (r_AddTx w tx)
  then show ?case by (simp add: sender_of_def AddTx_fields)
next
  case (r_AddVote w v)
  have inv: "wendy_inv w" by (rule reachable_wendy_inv [OF r_AddVote.hyps])
  show ?case
  proof (cases "k = Pubkey v")
    case False
    with r_AddVote.prems r_AddVote.IH show ?thesis
      by (simp add: AddVote_sender_of [OF inv])
  next
    case True
    show ?thesis
    proof (cases "sender_of w (Pubkey v)")
      case None
      with True r_AddVote.prems show ?thesis
        by (auto simp: AddVote_sender_of [OF inv] add new)
    next
      case (Some s0)
      with True r_AddVote.prems r_AddVote.IH [OF Some] show ?thesis
        by (auto simp: AddVote_sender_of [OF inv] add)
    qed
  qed
next
  case (r_CommitBlock w block)
  have inv: "wendy_inv w" by (rule reachable_wendy_inv [OF r_CommitBlock.hyps])
  from r_CommitBlock.prems obtain s0 where s0: "sender_of w k = Some s0"
    and s: "s = UpdateTxSet s0 (Txs block)"
    by (auto simp: CommitBlock_sender_of [OF inv])
  show ?case unfolding s by (rule commit [OF r_CommitBlock.IH [OF s0]])
qed

lemma reachable_sender_inv:
  "reachable Q w \<Longrightarrow> sender_of w k = Some s \<Longrightarrow> sender_inv s"
  by (rule reachable_senders_induct [where P = sender_inv])
    (simp_all add: sender_inv_NewSender sender_inv_AddVote_s UpdateTxSet_props(1))

text \<open>
  The first half of claim C5 holds: after \<^verbatim>\<open>CommitBlock(B)\<close> every sender has seen
  every transaction of \<open>B\<close>, through its \<open>committed\<close> set alone: neither \<open>by_hash\<close> nor
  \<open>votes\<close> holds the hash any more.
\<close>

lemma CommitBlock_prunes:
  assumes r: "reachable Q w" and tx: "tx \<in> set (Txs B)"
    and s: "sender_of (CommitBlock w B) k = Some s"
  shows "Seen s tx \<and> by_hash s (Hash tx) = None
         \<and> (\<forall>q v. s_votes s q = Some v \<longrightarrow> TxHash v \<noteq> Hash tx)"
proof -
  have inv: "wendy_inv w" by (rule reachable_wendy_inv [OF r])
  from s obtain s0 where s0: "sender_of w k = Some s0" and eq: "s = UpdateTxSet s0 (Txs B)"
    by (auto simp: CommitBlock_sender_of [OF inv])
  have si: "sender_inv s0" by (rule reachable_sender_inv [OF r s0])
  show ?thesis
    unfolding eq using UpdateTxSet_prunes [OF si tx] by blast
qed

text \<open>
  Claim C5, second half, at the failing input: a transaction is added to the pool,
  the block that holds it is committed, and the transaction is still in the pool
  (and its vote is still in the index \<^verbatim>\<open>votes\<close>). \<^verbatim>\<open>CommitBlock\<close> ranges over the senders
  only and never writes \<^verbatim>\<open>w.txs\<close>, although its comment says that it removes the
  block's transactions from Wendy's internal state.
\<close>

theorem CommitBlock_keeps_pool:
  "testTx0 \<in> set (Txs block_tx0)
   \<and> map_of (txs (CommitBlock pool_tx0 block_tx0)) (Hash testTx0) = Some testTx0
   \<and> VoteByTxHash (CommitBlock pool_tx0 block_tx0) (Hash testTx0)
       = Some (newVote pub0 0 testTx0)"
  by (simp add: CommitBlock_fields VoteByTxHash_def block_tx0_def pool_tx0_def
      scenario_defs op_defs)


subsection \<open>Quorum recomputation and the empty validator set\<close>

lemma UpdateValidatorSet_quorum:
  "quorum (UpdateValidatorSet Q w vs) = quorum_of Q (length vs)"
  "validators (UpdateValidatorSet Q w vs) = vs"
  "txs (UpdateValidatorSet Q w vs) = txs w"
  "votes (UpdateValidatorSet Q w vs) = votes w"
  by (simp_all add: UpdateValidatorSet_def Let_def case_prod_unfold)

lemma UpdateValidatorSet_empty:
  "senders (UpdateValidatorSet Q w []) = []" "quorum (UpdateValidatorSet Q w []) = 1"
  by (simp_all add: UpdateValidatorSet_def quorum_of_zero)

lemma no_quorum_without_senders: "senders w = [] \<Longrightarrow> \<not> hasQuorum w fn"
  by (simp add: hasQuorum_def sender_objs_def)

lemma no_quorum_nonpositive: "quorum w \<le> 0 \<Longrightarrow> \<not> hasQuorum w fn"
  by (simp add: hasQuorum_def hasQuorum_loop_iff)

lemma step_fields_no_update:
  "\<not> is_update c \<Longrightarrow> quorum (step Q w c) = quorum w \<and> validators (step Q w c) = validators w"
  by (cases c) (simp_all add: AddTx_fields AddVote_fields CommitBlock_fields)

lemma foldl_no_update:
  "\<not> list_ex is_update calls \<Longrightarrow>
     quorum (foldl (step Q) w calls) = quorum w
     \<and> validators (foldl (step Q) w calls) = validators w"
  by (induction calls arbitrary: w) (simp_all add: step_fields_no_update)

lemma run_no_update:
  "\<not> list_ex is_update calls \<Longrightarrow> quorum (run Q calls) = 0 \<and> validators (run Q calls) = []"
  using foldl_no_update [of calls Q New] by (simp add: run_def New_def)

text \<open>
  The first vote after an update to the empty set: \<^verbatim>\<open>AddVote\<close> creates the sender of
  its key, which is then the only sender, and the quorum is 1.
\<close>

lemma empty_set_first_vote:
  "sender_objs (snd (AddVote (UpdateValidatorSet Q w []) v))
     = [snd (AddVote_s (NewSender (Pubkey v)) v)]"
  "quorum (snd (AddVote (UpdateValidatorSet Q w []) v)) = 1"
  "validators (snd (AddVote (UpdateValidatorSet Q w []) v)) = []"
proof -
  show "quorum (snd (AddVote (UpdateValidatorSet Q w []) v)) = 1"
    by (simp add: AddVote_fields UpdateValidatorSet_empty)
  show "validators (snd (AddVote (UpdateValidatorSet Q w []) v)) = []"
    by (simp add: AddVote_fields UpdateValidatorSet_quorum)
  have "senders (UpdateValidatorSet Q w []) = []"
    by (rule UpdateValidatorSet_empty)
  then show "sender_objs (snd (AddVote (UpdateValidatorSet Q w []) v))
     = [snd (AddVote_s (NewSender (Pubkey v)) v)]"
    by (simp add: AddVote_def sender_for_def sender_objs_def Let_def case_prod_unfold)
qed

text \<open>
  Claim C7, as the code has it. After \<^verbatim>\<open>UpdateValidatorSet(vs)\<close>, \<^verbatim>\<open>HonestParties()\<close> is the
  whole part of the \<^verbatim>\<open>float64\<close> product \<^verbatim>\<open>float64(len(vs))*Quorum\<close> plus 1, which is 1 for
  the empty set, whatever the constant; with \<^verbatim>\<open>Quorum\<close> = 2/3 and fewer than \<open>2^51\<close>
  validators it is \<open>\<lfloor>|vs| * 2/3\<rfloor> + 1\<close> of exact arithmetic. \<^verbatim>\<open>HonestMajority()\<close> is \<open>|vs|\<close>
  minus that quorum. In every state reached from the fresh one without
  \<^verbatim>\<open>UpdateValidatorSet\<close>, and right after an update to the empty set, the validator
  set is empty and \<^verbatim>\<open>hasQuorum\<close> holds of no predicate: every transaction is blocked.
  What the claim says beyond that fails: once the empty set is installed the quorum
  is 1, and after one \<^verbatim>\<open>AddVote\<close>, of any vote, \<^verbatim>\<open>hasQuorum\<close> holds of every predicate that
  the one sender satisfies, the validator set being still empty. No operation
  divides; and in every reachable state each address in \<^verbatim>\<open>senders\<close> is allocated, so
  no sender pointer that \<^verbatim>\<open>AddVote\<close>, \<^verbatim>\<open>CommitBlock\<close> or \<^verbatim>\<open>hasQuorum\<close> follows is dangling.
\<close>

theorem quorum_recomputation:
  "HonestParties (UpdateValidatorSet Q w vs)
     = trunc (float64 (of_int \<lfloor>float64 (float64 (real (length vs)) * float64 Q)\<rfloor> + 1))
   \<and> (length vs < 2 ^ 51 \<longrightarrow>
        HonestParties (UpdateValidatorSet (2/3) w vs) = \<lfloor>real (length vs) * (2/3)\<rfloor> + 1)
   \<and> HonestParties (UpdateValidatorSet Q w []) = 1
   \<and> HonestMajority (UpdateValidatorSet Q w vs)
       = int (length vs) - HonestParties (UpdateValidatorSet Q w vs)
   \<and> (\<not> list_ex is_update calls \<longrightarrow>
        validators (run Q calls) = [] \<and> \<not> hasQuorum (run Q calls) fn
        \<and> IsBlocked (run Q calls) tx \<and> IsBlockedBy (run Q calls) tx1 tx2)
   \<and> \<not> hasQuorum (UpdateValidatorSet Q w []) fn
   \<and> IsBlocked (UpdateValidatorSet Q w []) tx
   \<and> IsBlockedBy (UpdateValidatorSet Q w []) tx1 tx2
   \<and> validators (snd (AddVote (UpdateValidatorSet Q w []) v)) = []
   \<and> (hasQuorum (snd (AddVote (UpdateValidatorSet Q w []) v)) fn
        \<longleftrightarrow> fn (snd (AddVote_s (NewSender (Pubkey v)) v)))
   \<and> (reachable Q w' \<longrightarrow> list_all (\<lambda>(k, a). a < length (heap w')) (senders w'))"
proof (intro conjI impI)
  show "HonestParties (UpdateValidatorSet Q w vs)
     = trunc (float64 (of_int \<lfloor>float64 (float64 (real (length vs)) * float64 Q)\<rfloor> + 1))"
    by (simp add: HonestParties_def UpdateValidatorSet_quorum quorum_of_def)
  show "HonestParties (UpdateValidatorSet Q w []) = 1"
    by (simp add: HonestParties_def UpdateValidatorSet_empty)
  show "HonestMajority (UpdateValidatorSet Q w vs)
       = int (length vs) - HonestParties (UpdateValidatorSet Q w vs)"
    by (simp add: HonestMajority_def HonestParties_def UpdateValidatorSet_quorum)
  show "\<not> hasQuorum (UpdateValidatorSet Q w []) fn"
    by (simp add: no_quorum_without_senders UpdateValidatorSet_empty)
  show "IsBlocked (UpdateValidatorSet Q w []) tx"
    by (simp add: IsBlocked_def no_quorum_without_senders UpdateValidatorSet_empty)
  show "IsBlockedBy (UpdateValidatorSet Q w []) tx1 tx2"
    by (simp add: IsBlockedBy_def no_quorum_without_senders UpdateValidatorSet_empty)
  show "validators (snd (AddVote (UpdateValidatorSet Q w []) v)) = []"
    by (rule empty_set_first_vote)
  show "hasQuorum (snd (AddVote (UpdateValidatorSet Q w []) v)) fn
        \<longleftrightarrow> fn (snd (AddVote_s (NewSender (Pubkey v)) v))"
    by (simp add: hasQuorum_def empty_set_first_vote)
next
  assume "length vs < 2 ^ 51"
  then show "HonestParties (UpdateValidatorSet (2/3) w vs) = \<lfloor>real (length vs) * (2/3)\<rfloor> + 1"
    by (simp only: HonestParties_def UpdateValidatorSet_quorum quorum_of_two_thirds)
next
  assume n: "\<not> list_ex is_update calls"
  note q = run_no_update [OF n, of Q]
  show "validators (run Q calls) = []" using q by simp
  show "\<not> hasQuorum (run Q calls) fn"
    using q by (simp add: no_quorum_nonpositive)
  show "IsBlocked (run Q calls) tx"
    using q by (simp add: IsBlocked_def no_quorum_nonpositive)
  show "IsBlockedBy (run Q calls) tx1 tx2"
    using q by (simp add: IsBlockedBy_def no_quorum_nonpositive)
next
  assume "reachable Q w'"
  then have "wendy_inv w'" by (rule reachable_wendy_inv)
  then show "list_all (\<lambda>(k, a). a < length (heap w')) (senders w')"
    by (simp add: wendy_inv_def)
qed

text \<open>
  The theorem at four validators with \<^verbatim>\<open>Quorum\<close> = 2/3 (quorum 3, honest majority 1); at
  a fresh core that receives votes of three keys for \<^verbatim>\<open>testTx0\<close> and never an update:
  the transaction stays blocked; at the vote of the key \<open>0xabcd\<close> for \<^verbatim>\<open>testTx0\<close> after
  an update to the empty set; and at the state of \<^verbatim>\<open>TestIsBlockedBy\<close> after \<^verbatim>\<open>3of4\<close>.
\<close>

theorem quorum_recomputation_witness:
  "length [pub0, pub1, pub2, pub3] < 2 ^ 51
   \<and> HonestParties (UpdateValidatorSet (2/3) New [pub0, pub1, pub2, pub3]) = 3
   \<and> HonestMajority (UpdateValidatorSet (2/3) New [pub0, pub1, pub2, pub3]) = 1
   \<and> \<not> list_ex is_update [CallAddVote (newVote pub0 0 testTx0),
         CallAddVote (newVote pub1 0 testTx0), CallAddVote (newVote pub2 0 testTx0)]
   \<and> IsBlocked (run (2/3) [CallAddVote (newVote pub0 0 testTx0),
         CallAddVote (newVote pub1 0 testTx0), CallAddVote (newVote pub2 0 testTx0)]) testTx0
   \<and> hasQuorum (snd (AddVote (UpdateValidatorSet (2/3) New []) (newVote ''0xabcd'' 0 testTx0)))
        (\<lambda>s. Seen s testTx0)
   \<and> reachable (2/3) blockedby_3of4
   \<and> list_all (\<lambda>(k, a). a < length (heap blockedby_3of4)) (senders blockedby_3of4)"
proof -
  have r: "reachable (2/3) blockedby_3of4"
    unfolding blockedby_3of4_def by (rule reachable_run)
  have s: "Seen (snd (AddVote_s (NewSender (Pubkey (newVote ''0xabcd'' 0 testTx0)))
                    (newVote ''0xabcd'' 0 testTx0))) testTx0"
    by (simp add: Seen_def AddVote_s_def NewSender_def scenario_defs)
  have m: "\<lfloor>real (length [pub0, pub1, pub2, pub3]) * (2 / 3)\<rfloor> + 1 = 3"
    by simp
  from quorum_recomputation [of "2/3" New "[pub0, pub1, pub2, pub3]"
      "[CallAddVote (newVote pub0 0 testTx0),
         CallAddVote (newVote pub1 0 testTx0), CallAddVote (newVote pub2 0 testTx0)]"
      "\<lambda>s. Seen s testTx0" testTx0 testTx0 testTx1 "newVote ''0xabcd'' 0 testTx0"
      blockedby_3of4]
  show ?thesis
    using r s m by simp
qed

text \<open>
  Claim C7 as stated fails twice. The validator set is empty and \<^verbatim>\<open>testTx0\<close> is not
  blocked: \<^verbatim>\<open>UpdateValidatorSet\<close> with the empty set puts the quorum at 1, and the one
  vote of a key outside the (empty) validator set creates a sender that meets it.
  And the quorum is not that of exact arithmetic for every constant: with the
  \<^verbatim>\<open>float64\<close> nearest to 2/3 as \<^verbatim>\<open>Quorum\<close> and three validators, the product is rounded
  to 2 and the quorum is 3, where the exact product is below 2 and gives 2.
\<close>

theorem empty_set_quorum_counterexample:
  "validators empty_set_voted = [] \<and> \<not> IsBlocked empty_set_voted testTx0
   \<and> HonestParties (UpdateValidatorSet Quorum64 New [pub0, pub1, pub2]) = 3
   \<and> \<lfloor>real (length [pub0, pub1, pub2]) * Quorum64\<rfloor> + 1 = 2"
proof -
  have a: "validators empty_set_voted = [] \<and> \<not> IsBlocked empty_set_voted testTx0"
    by (simp add: empty_set_voted_def empty_set_calls_def scenario_defs op_defs pred_defs
        quorum_of_zero)
  have b: "HonestParties (UpdateValidatorSet Quorum64 New [pub0, pub1, pub2]) = 3"
    by (simp add: HonestParties_def UpdateValidatorSet_quorum quorum_of_Quorum64
        quorum_of_two_thirds)
  have c: "\<lfloor>real (length [pub0, pub1, pub2]) * Quorum64\<rfloor> + 1 = 2"
    by (simp add: Quorum64_def floor_eq_iff)
  show ?thesis
    using a b c by blast
qed


subsection \<open>Senders outside the validator set\<close>

text \<open>
  Claim C10. In a reachable state, \<^verbatim>\<open>AddVote\<close> with a key that has no sender (so a key
  outside the validator set) creates a sender for it that holds the vote; the quorum
  and the validator set stay as they are, the quorum being a function of the number
  of validators alone; \<^verbatim>\<open>hasQuorum\<close> counts every sender of the map, the new one
  included; and an \<^verbatim>\<open>UpdateValidatorSet\<close> without the key discards the sender. In the
  state \<open>outsiders\<close> no validator has voted, three keys outside the validator set have
  voted \<^verbatim>\<open>testTx0\<close> before \<^verbatim>\<open>testTx1\<close>, and both \<^verbatim>\<open>IsBlocked(testTx0)\<close> and
  \<^verbatim>\<open>IsBlockedBy(testTx0, testTx1)\<close> are false; after \<^verbatim>\<open>UpdateValidatorSet\<close> with the same
  validators both are true.
\<close>

theorem adhoc_senders_count:
  "(reachable Q w \<longrightarrow> map_of (senders w) (Pubkey v) = None \<longrightarrow>
      Pubkey v \<notin> set (validators w)
      \<and> sender_of (snd (AddVote w v)) (Pubkey v) = Some (snd (AddVote_s (NewSender (Pubkey v)) v))
      \<and> quorum (snd (AddVote w v)) = quorum w
      \<and> validators (snd (AddVote w v)) = validators w
      \<and> (hasQuorum (snd (AddVote w v)) fn \<longleftrightarrow>
           1 \<le> quorum w \<and> quorum w \<le> int (count_senders (snd (AddVote w v)) fn))
      \<and> (Pubkey v \<notin> set vs \<longrightarrow>
           sender_of (UpdateValidatorSet Q (snd (AddVote w v)) vs) (Pubkey v) = None))
   \<and> quorum (UpdateValidatorSet Q w vs) = quorum_of Q (length vs)
   \<and> reachable (2/3) outsiders
   \<and> validators outsiders = [pub0, pub1, pub2, pub3]
   \<and> list_all (\<lambda>v. \<exists>s. sender_of outsiders v = Some s \<and> \<not> Seen s testTx0 \<and> \<not> Seen s testTx1)
        (validators outsiders)
   \<and> \<not> IsBlocked outsiders testTx0
   \<and> \<not> IsBlockedBy outsiders testTx0 testTx1
   \<and> IsBlocked (UpdateValidatorSet (2/3) outsiders (validators outsiders)) testTx0
   \<and> IsBlockedBy (UpdateValidatorSet (2/3) outsiders (validators outsiders)) testTx0 testTx1"
proof -
  have general: "Pubkey v \<notin> set (validators w)
      \<and> sender_of (snd (AddVote w v)) (Pubkey v) = Some (snd (AddVote_s (NewSender (Pubkey v)) v))
      \<and> quorum (snd (AddVote w v)) = quorum w
      \<and> validators (snd (AddVote w v)) = validators w
      \<and> (hasQuorum (snd (AddVote w v)) fn \<longleftrightarrow>
           1 \<le> quorum w \<and> quorum w \<le> int (count_senders (snd (AddVote w v)) fn))
      \<and> (Pubkey v \<notin> set vs \<longrightarrow>
           sender_of (UpdateValidatorSet Q (snd (AddVote w v)) vs) (Pubkey v) = None)"
    if r: "reachable Q w" and none: "map_of (senders w) (Pubkey v) = None"
  proof -
    have inv: "wendy_inv w" by (rule reachable_wendy_inv [OF r])
    have inv': "wendy_inv (snd (AddVote w v))" by (rule wendy_inv_AddVote [OF inv])
    have d': "distinct (map fst (senders (snd (AddVote w v))))"
      using inv' by (simp add: wendy_inv_def)
    have nv: "Pubkey v \<notin> set (validators w)"
      using inv [unfolded wendy_inv_iff] none by blast
    have so: "sender_of w (Pubkey v) = None" using none by (simp add: sender_of_def)
    have s: "sender_of (snd (AddVote w v)) (Pubkey v)
        = Some (snd (AddVote_s (NewSender (Pubkey v)) v))"
      by (simp add: AddVote_sender_of [OF inv] so)
    have h: "hasQuorum (snd (AddVote w v)) fn \<longleftrightarrow>
           1 \<le> quorum w \<and> quorum w \<le> int (count_senders (snd (AddVote w v)) fn)"
      unfolding hasQuorum_iff [OF d'] AddVote_fields ..
    have u: "Pubkey v \<notin> set vs \<longrightarrow>
           sender_of (UpdateValidatorSet Q (snd (AddVote w v)) vs) (Pubkey v) = None"
      by (simp add: UpdateValidatorSet_sender_of [OF inv'])
    show ?thesis using nv s h u by (simp add: AddVote_fields)
  qed
  have q: "quorum (UpdateValidatorSet Q w vs) = quorum_of Q (length vs)"
    by (rule UpdateValidatorSet_quorum(1))
  have r: "reachable (2/3) outsiders"
    unfolding outsiders_def by (rule reachable_run)
  have v: "validators outsiders = [pub0, pub1, pub2, pub3]"
    by (simp add: outsiders_def outsiders_calls_def scenario_defs op_defs)
  have ns: "list_all (\<lambda>v. \<exists>s. sender_of outsiders v = Some s \<and> \<not> Seen s testTx0 \<and> \<not> Seen s testTx1)
        (validators outsiders)"
    by (simp add: outsiders_def outsiders_calls_def sender_of_def scenario_defs op_defs
        pred_defs)
  have b1: "\<not> IsBlocked outsiders testTx0"
    by (simp add: outsiders_def outsiders_calls_def scenario_defs op_defs pred_defs)
  have b2: "\<not> IsBlockedBy outsiders testTx0 testTx1"
    by (simp add: outsiders_def outsiders_calls_def scenario_defs op_defs pred_defs)
  have b3: "IsBlocked (UpdateValidatorSet (2/3) outsiders (validators outsiders)) testTx0"
    by (simp add: outsiders_def outsiders_calls_def scenario_defs op_defs pred_defs)
  have b4: "IsBlockedBy (UpdateValidatorSet (2/3) outsiders (validators outsiders)) testTx0 testTx1"
    by (simp add: outsiders_def outsiders_calls_def scenario_defs op_defs pred_defs)
  show ?thesis
    using general q r v ns b1 b2 b3 b4 by blast
qed

text \<open>
  The theorem at four validators and a first vote of the outside key \<open>out0\<close>: the key
  has no sender before the vote and has one after it, the quorum stays 3, and the
  next update to the same validators discards the sender.
\<close>

theorem adhoc_senders_count_witness:
  "reachable (2/3) (run (2/3) [CallUpdateValidatorSet [pub0, pub1, pub2, pub3]])
   \<and> map_of (senders (run (2/3) [CallUpdateValidatorSet [pub0, pub1, pub2, pub3]]))
        (Pubkey (newVote ''out0'' 0 testTx0)) = None
   \<and> ''out0'' \<notin> set (validators (run (2/3) [CallUpdateValidatorSet [pub0, pub1, pub2, pub3]]))
   \<and> Seen (the (sender_of
        (snd (AddVote (run (2/3) [CallUpdateValidatorSet [pub0, pub1, pub2, pub3]])
               (newVote ''out0'' 0 testTx0))) ''out0'')) testTx0
   \<and> quorum (snd (AddVote (run (2/3) [CallUpdateValidatorSet [pub0, pub1, pub2, pub3]])
               (newVote ''out0'' 0 testTx0))) = 3
   \<and> sender_of (UpdateValidatorSet (2/3)
        (snd (AddVote (run (2/3) [CallUpdateValidatorSet [pub0, pub1, pub2, pub3]])
               (newVote ''out0'' 0 testTx0)))
        [pub0, pub1, pub2, pub3]) ''out0'' = None"
proof -
  let ?w = "run (2/3) [CallUpdateValidatorSet [pub0, pub1, pub2, pub3]]"
  let ?v = "newVote ''out0'' 0 testTx0"
  have r: "reachable (2/3) ?w" by (rule reachable_run)
  have n: "map_of (senders ?w) (Pubkey ?v) = None"
    by (simp add: scenario_defs op_defs)
  have pk: "Pubkey ?v = ''out0''" by (simp add: newVote_def)
  have q: "quorum ?w = 3" by (simp add: scenario_defs op_defs)
  have nin: "''out0'' \<notin> set [pub0, pub1, pub2, pub3]" by (simp add: scenario_defs)
  have seen: "Seen (snd (AddVote_s (NewSender ''out0'') ?v)) testTx0"
    by (simp add: scenario_defs op_defs pred_defs)
  from adhoc_senders_count [of "2/3" ?w ?v "\<lambda>s. Seen s testTx0" "[pub0, pub1, pub2, pub3]"]
    r n
  have "Pubkey ?v \<notin> set (validators ?w)
      \<and> sender_of (snd (AddVote ?w ?v)) (Pubkey ?v) = Some (snd (AddVote_s (NewSender (Pubkey ?v)) ?v))
      \<and> quorum (snd (AddVote ?w ?v)) = quorum ?w
      \<and> (Pubkey ?v \<notin> set [pub0, pub1, pub2, pub3] \<longrightarrow>
           sender_of (UpdateValidatorSet (2/3) (snd (AddVote ?w ?v)) [pub0, pub1, pub2, pub3]) (Pubkey ?v) = None)"
    by blast
  then show ?thesis
    using r n nin q seen by (simp add: pk)
qed


subsection \<open>The fairness loop\<close>

lemmas fairness_defs = fairness_loop_def newWendyFromTxsMap_def newWendyFromTxsMap_calls_def

lemma fairness_loop_senders:
  "sender_objs fairness_loop =
     [voted ''0x00'' [testTx1, testTx2, testTx3, testTx4, testTx5],
      voted ''0x01'' [testTx2, testTx3, testTx4, testTx5, testTx1],
      voted ''0x02'' [testTx3, testTx4, testTx5, testTx1, testTx2],
      voted ''0x03'' [testTx4, testTx5, testTx1, testTx2, testTx3],
      voted ''0x04'' [testTx5, testTx1, testTx2, testTx3, testTx4]]"
  by (simp add: fairness_defs scenario_defs op_defs sender_objs_def voted_def)

lemma fairness_loop_quorum: "quorum fairness_loop = 4"
  by (simp add: fairness_defs scenario_defs op_defs)

lemma fairness_loop_txs:
  "map snd (txs fairness_loop) = [testTx1, testTx2, testTx3, testTx4, testTx5]"
  by (simp add: fairness_defs scenario_defs op_defs)

lemmas fairness_eval = IsBlocked_def IsBlockedBy_def hasQuorum_def fairness_loop_senders
  fairness_loop_quorum voted_def Seen_def Before_def gap_free_def NewSender_def AddVote_s_def
  scenario_defs

lemma fairness_loop_blockers_1:
  "IsBlockedBy fairness_loop testTx1 testTx1"
  "\<not> IsBlockedBy fairness_loop testTx1 testTx2"
  "IsBlockedBy fairness_loop testTx1 testTx3"
  "IsBlockedBy fairness_loop testTx1 testTx4"
  "IsBlockedBy fairness_loop testTx1 testTx5"
  by (simp_all add: fairness_eval)

lemma fairness_loop_blockers_2:
  "IsBlockedBy fairness_loop testTx2 testTx1"
  "IsBlockedBy fairness_loop testTx2 testTx2"
  "\<not> IsBlockedBy fairness_loop testTx2 testTx3"
  "IsBlockedBy fairness_loop testTx2 testTx4"
  "IsBlockedBy fairness_loop testTx2 testTx5"
  by (simp_all add: fairness_eval)

lemma fairness_loop_blockers_3:
  "IsBlockedBy fairness_loop testTx3 testTx1"
  "IsBlockedBy fairness_loop testTx3 testTx2"
  "IsBlockedBy fairness_loop testTx3 testTx3"
  "\<not> IsBlockedBy fairness_loop testTx3 testTx4"
  "IsBlockedBy fairness_loop testTx3 testTx5"
  by (simp_all add: fairness_eval)

lemma fairness_loop_blockers_4:
  "IsBlockedBy fairness_loop testTx4 testTx1"
  "IsBlockedBy fairness_loop testTx4 testTx2"
  "IsBlockedBy fairness_loop testTx4 testTx3"
  "IsBlockedBy fairness_loop testTx4 testTx4"
  "\<not> IsBlockedBy fairness_loop testTx4 testTx5"
  by (simp_all add: fairness_eval)

lemma fairness_loop_blockers_5:
  "\<not> IsBlockedBy fairness_loop testTx5 testTx1"
  "IsBlockedBy fairness_loop testTx5 testTx2"
  "IsBlockedBy fairness_loop testTx5 testTx3"
  "IsBlockedBy fairness_loop testTx5 testTx4"
  "IsBlockedBy fairness_loop testTx5 testTx5"
  by (simp_all add: fairness_eval)

lemma fairness_loop_candidates:
  "candidates fairness_loop = [testTx1, testTx2, testTx3, testTx4, testTx5]"
  by (simp add: candidates_def fairness_loop_txs) (simp add: fairness_eval)

lemma fairness_loop_txs_distinct:
  "testTx1 \<noteq> testTx2"
  "testTx1 \<noteq> testTx3"
  "testTx1 \<noteq> testTx4"
  "testTx1 \<noteq> testTx5"
  "testTx2 \<noteq> testTx1"
  "testTx2 \<noteq> testTx3"
  "testTx2 \<noteq> testTx4"
  "testTx2 \<noteq> testTx5"
  "testTx3 \<noteq> testTx1"
  "testTx3 \<noteq> testTx2"
  "testTx3 \<noteq> testTx4"
  "testTx3 \<noteq> testTx5"
  "testTx4 \<noteq> testTx1"
  "testTx4 \<noteq> testTx2"
  "testTx4 \<noteq> testTx3"
  "testTx4 \<noteq> testTx5"
  "testTx5 \<noteq> testTx1"
  "testTx5 \<noteq> testTx2"
  "testTx5 \<noteq> testTx3"
  "testTx5 \<noteq> testTx4"
  by (simp_all add: scenario_defs)

lemmas fairness_table = fairness_loop_blockers_1 fairness_loop_blockers_2
  fairness_loop_blockers_3 fairness_loop_blockers_4 fairness_loop_blockers_5
  fairness_loop_txs_distinct

text \<open>
  The candidates that block \<^verbatim>\<open>testTx1\<close> directly do not include \<^verbatim>\<open>testTx2\<close>; the closure
  does, through \<^verbatim>\<open>testTx3\<close>, which \<^verbatim>\<open>testTx2\<close> blocks.
\<close>

lemma fairness_loop_direct:
  "blockers fairness_loop (candidates fairness_loop) [testTx1]
     = [testTx1, testTx3, testTx4, testTx5]"
  by (simp add: blockers_def fairness_loop_candidates fairness_table)

lemma fairness_loop_BlockingSet:
  "BlockingSet fairness_loop =
     map (\<lambda>tx. (Hash tx, [testTx1, testTx2, testTx3, testTx4, testTx5]))
       [testTx1, testTx2, testTx3, testTx4, testTx5]"
  by (simp add: BlockingSet_def Let_def fairness_loop_candidates blockers_def fairness_table)

text \<open>
  Claim C4, as the code has it. In the fairness loop of \<^verbatim>\<open>TestBlockingSet\<close> (five
  validators voting the five transactions in the rotated orders, \<^verbatim>\<open>Quorum\<close> = 2/3,
  quorum 4), each transaction is blocked by its predecessor on the cycle:
  \<^verbatim>\<open>IsBlockedBy(tx_{i+1}, tx_i)\<close> is true, which is what the test asserts, since one
  validator only has seen \<open>tx_{i+1}\<close> first. In the direction of the claim,
  \<^verbatim>\<open>IsBlockedBy(tx_i, tx_{i+1})\<close> is false, since four validators have seen \<open>tx_i\<close>
  first. \<^verbatim>\<open>BlockingSet()\<close> maps each of the five hashes to the five transactions.
\<close>

theorem fairness_loop_blocking:
  "IsBlockedBy fairness_loop testTx2 testTx1
   \<and> IsBlockedBy fairness_loop testTx3 testTx2
   \<and> IsBlockedBy fairness_loop testTx4 testTx3
   \<and> IsBlockedBy fairness_loop testTx5 testTx4
   \<and> IsBlockedBy fairness_loop testTx1 testTx5
   \<and> IsBlockedBy fairness_loop testTx1 testTx4
   \<and> \<not> IsBlockedBy fairness_loop testTx1 testTx2
   \<and> \<not> IsBlockedBy fairness_loop testTx2 testTx3
   \<and> \<not> IsBlockedBy fairness_loop testTx3 testTx4
   \<and> \<not> IsBlockedBy fairness_loop testTx4 testTx5
   \<and> \<not> IsBlockedBy fairness_loop testTx5 testTx1
   \<and> map_option set (map_of (BlockingSet fairness_loop) (Hash testTx1))
       = Some {testTx1, testTx2, testTx3, testTx4, testTx5}
   \<and> map_option set (map_of (BlockingSet fairness_loop) (Hash testTx2))
       = Some {testTx1, testTx2, testTx3, testTx4, testTx5}
   \<and> map_option set (map_of (BlockingSet fairness_loop) (Hash testTx3))
       = Some {testTx1, testTx2, testTx3, testTx4, testTx5}
   \<and> map_option set (map_of (BlockingSet fairness_loop) (Hash testTx4))
       = Some {testTx1, testTx2, testTx3, testTx4, testTx5}
   \<and> map_option set (map_of (BlockingSet fairness_loop) (Hash testTx5))
       = Some {testTx1, testTx2, testTx3, testTx4, testTx5}"
proof -
  have neq: "distinct [Hash testTx1, Hash testTx2, Hash testTx3, Hash testTx4, Hash testTx5]"
    by (simp add: scenario_defs)
  show ?thesis
    using neq
    by (simp add: fairness_loop_BlockingSet fairness_loop_blockers_1 fairness_loop_blockers_2
        fairness_loop_blockers_3 fairness_loop_blockers_4 fairness_loop_blockers_5)
qed

text \<open>
  Claim C4 as stated fails at its first pair: \<^verbatim>\<open>IsBlockedBy(testTx1, testTx2)\<close> is
  false in the fairness loop.
\<close>

theorem fairness_loop_counterexample:
  "\<not> IsBlockedBy fairness_loop testTx1 testTx2"
  by (simp add: fairness_loop_blockers_1)


subsection \<open>Building a block under limits\<close>

lemma block_union_set: "set (block_union bs) = (\<Union>(h, ts) \<in> set bs. set ts)"
  by (auto simp: block_union_def)

lemma block_union_distinct: "distinct (block_union bs)"
  by (simp add: block_union_def)

lemma block_union_length: "length (block_union bs) = card (\<Union>(h, ts) \<in> set bs. set ts)"
  using distinct_card [OF block_union_distinct, of bs] by (simp add: block_union_set)

lemma take_size_bound: "block_size (take_size m ts) \<le> m"
proof (induction ts arbitrary: m)
  case Nil
  then show ?case by (simp add: block_size_def)
next
  case (Cons tx ts)
  show ?case
  proof (cases "length (Bytes tx) \<le> m")
    case True
    from Cons.IH [of "m - length (Bytes tx)"] True show ?thesis
      by (simp add: block_size_def)
  next
    case False
    then show ?thesis by (simp add: block_size_def)
  qed
qed

lemma take_size_prefix: "\<exists>n. take_size m ts = take n ts"
proof (induction ts arbitrary: m)
  case Nil
  then show ?case by simp
next
  case (Cons tx ts)
  show ?case
  proof (cases "length (Bytes tx) \<le> m")
    case True
    from Cons.IH [of "m - length (Bytes tx)"] obtain n
      where "take_size (m - length (Bytes tx)) ts = take n ts" by blast
    with True have "take_size m (tx # ts) = take (Suc n) (tx # ts)" by simp
    then show ?thesis by blast
  next
    case False
    then have "take_size m (tx # ts) = take 0 (tx # ts)" by simp
    then show ?thesis by blast
  qed
qed

lemma NewBlock_prefix:
  "\<exists>n. Txs (NewBlockWithOptions bs opts) = take n (block_union bs)"
proof -
  let ?limited = "if TxLimit opts = 0 then block_union bs else take (TxLimit opts) (block_union bs)"
  have l: "\<exists>n. ?limited = take n (block_union bs)"
    by (cases "TxLimit opts = 0") (auto intro: exI [of _ "length (block_union bs)"])
  then obtain n where n: "?limited = take n (block_union bs)" by blast
  show ?thesis
  proof (cases "MaxBlockSize opts = 0")
    case True
    then show ?thesis using l by (simp add: NewBlockWithOptions_def Let_def)
  next
    case False
    from take_size_prefix [of "MaxBlockSize opts" ?limited] obtain k
      where "take_size (MaxBlockSize opts) ?limited = take k ?limited" by blast
    then have "take_size (MaxBlockSize opts) ?limited = take (min k n) (block_union bs)"
      unfolding n by simp
    then show ?thesis using False by (auto simp: NewBlockWithOptions_def Let_def)
  qed
qed

lemma NewBlock_drawn:
  "distinct (Txs (NewBlockWithOptions bs opts))"
  "set (Txs (NewBlockWithOptions bs opts)) \<subseteq> (\<Union>(h, ts) \<in> set bs. set ts)"
proof -
  obtain n where n: "Txs (NewBlockWithOptions bs opts) = take n (block_union bs)"
    using NewBlock_prefix by blast
  show "distinct (Txs (NewBlockWithOptions bs opts))"
    unfolding n using block_union_distinct by (rule distinct_take)
  show "set (Txs (NewBlockWithOptions bs opts)) \<subseteq> (\<Union>(h, ts) \<in> set bs. set ts)"
    unfolding n using set_take_subset [of n "block_union bs"] by (simp add: block_union_set)
qed

text \<open>
  Claim C8. For every blocking set, the block of \<^verbatim>\<open>NewBlockWithOptions\<close> is made of
  distinct transactions of the union of the values of the blocking map. With an
  active \<^verbatim>\<open>TxLimit\<close> of \<open>k\<close> alone, and a union of at least \<open>k\<close> transactions, the block
  holds exactly \<open>k\<close>. With an active \<^verbatim>\<open>MaxBlockSize\<close> of \<open>m\<close>, the summed
  \<^verbatim>\<open>len(tx.Bytes())\<close> is at most \<open>m\<close>. With both, the block holds at most \<open>k\<close>
  transactions of at most \<open>m\<close> bytes in all. A limit is active when it is not 0.
\<close>

theorem NewBlock_limits:
  "distinct (Txs (NewBlockWithOptions bs opts))
   \<and> set (Txs (NewBlockWithOptions bs opts)) \<subseteq> (\<Union>(h, ts) \<in> set bs. set ts)
   \<and> (0 < TxLimit opts \<longrightarrow> MaxBlockSize opts = 0 \<longrightarrow>
        TxLimit opts \<le> card (\<Union>(h, ts) \<in> set bs. set ts) \<longrightarrow>
        length (Txs (NewBlockWithOptions bs opts)) = TxLimit opts)
   \<and> (0 < MaxBlockSize opts \<longrightarrow>
        block_size (Txs (NewBlockWithOptions bs opts)) \<le> MaxBlockSize opts)
   \<and> (0 < TxLimit opts \<longrightarrow> 0 < MaxBlockSize opts \<longrightarrow>
        length (Txs (NewBlockWithOptions bs opts)) \<le> TxLimit opts
        \<and> block_size (Txs (NewBlockWithOptions bs opts)) \<le> MaxBlockSize opts)"
proof (intro conjI impI)
  show "distinct (Txs (NewBlockWithOptions bs opts))" by (rule NewBlock_drawn(1))
  show "set (Txs (NewBlockWithOptions bs opts)) \<subseteq> (\<Union>(h, ts) \<in> set bs. set ts)"
    by (rule NewBlock_drawn(2))
next
  assume "0 < TxLimit opts" "MaxBlockSize opts = 0"
    "TxLimit opts \<le> card (\<Union>(h, ts) \<in> set bs. set ts)"
  then show "length (Txs (NewBlockWithOptions bs opts)) = TxLimit opts"
    by (simp add: NewBlockWithOptions_def Let_def block_union_length)
next
  assume m: "0 < MaxBlockSize opts"
  then show "block_size (Txs (NewBlockWithOptions bs opts)) \<le> MaxBlockSize opts"
    by (simp add: NewBlockWithOptions_def Let_def take_size_bound)
next
  assume k: "0 < TxLimit opts" and m: "0 < MaxBlockSize opts"
  from take_size_prefix [of "MaxBlockSize opts" "take (TxLimit opts) (block_union bs)"]
  obtain n where "take_size (MaxBlockSize opts) (take (TxLimit opts) (block_union bs))
      = take n (take (TxLimit opts) (block_union bs))" by blast
  then show "length (Txs (NewBlockWithOptions bs opts)) \<le> TxLimit opts"
    using k m by (simp add: NewBlockWithOptions_def Let_def)
  show "block_size (Txs (NewBlockWithOptions bs opts)) \<le> MaxBlockSize opts"
    using m by (simp add: NewBlockWithOptions_def Let_def take_size_bound)
qed

lemma newblock_set_union:
  "block_union newblock_set = [testTx0, testTx1, testTx3, testTx4]"
  by (simp add: block_union_def newblock_set_def scenario_defs)

text \<open>
  The theorem at the blocking set of \<^verbatim>\<open>TestBlockingSet/NewBlock\<close>, whose union holds
  four transactions of three bytes each: \<^verbatim>\<open>TxLimit\<close> 3 gives three transactions,
  \<^verbatim>\<open>MaxBlockSize\<close> 10 gives at most 10 bytes, and both limits together hold together.
\<close>

theorem NewBlock_limits_witness:
  "card (\<Union>(h, ts) \<in> set newblock_set. set ts) = 4
   \<and> length (Txs (NewBlockWithOptions newblock_set \<lparr>TxLimit = 3, MaxBlockSize = 0\<rparr>)) = 3
   \<and> block_size (Txs (NewBlockWithOptions newblock_set \<lparr>TxLimit = 0, MaxBlockSize = 10\<rparr>)) \<le> 10
   \<and> length (Txs (NewBlockWithOptions newblock_set \<lparr>TxLimit = 2, MaxBlockSize = 10\<rparr>)) \<le> 2
   \<and> block_size (Txs (NewBlockWithOptions newblock_set \<lparr>TxLimit = 2, MaxBlockSize = 10\<rparr>)) \<le> 10"
proof -
  have c: "card (\<Union>(h, ts) \<in> set newblock_set. set ts) = 4"
    using block_union_length [of newblock_set] by (simp add: newblock_set_union)
  show ?thesis
    using c NewBlock_limits [of newblock_set "\<lparr>TxLimit = 3, MaxBlockSize = 0\<rparr>"]
      NewBlock_limits [of newblock_set "\<lparr>TxLimit = 0, MaxBlockSize = 10\<rparr>"]
      NewBlock_limits [of newblock_set "\<lparr>TxLimit = 2, MaxBlockSize = 10\<rparr>"]
    by simp
qed


subsection \<open>The block is a function of the contents of the blocking set\<close>

lemma same_contents_subset:
  assumes d: "distinct (map fst bs)"
    and eq: "\<forall>h. map_option set (map_of bs h) = map_option set (map_of bs' h)"
  shows "(\<Union>(h, ts) \<in> set bs. set ts) \<subseteq> (\<Union>(h, ts) \<in> set bs'. set ts)"
proof
  fix x assume "x \<in> (\<Union>(h, ts) \<in> set bs. set ts)"
  then obtain h ts where m: "(h, ts) \<in> set bs" and x: "x \<in> set ts" by auto
  from m d have "map_of bs h = Some ts" by simp
  with eq have "map_option set (map_of bs' h) = Some (set ts)" by (metis option.simps(9))
  then obtain ts' where ts': "map_of bs' h = Some ts'" and s: "set ts' = set ts" by auto
  from ts' have "(h, ts') \<in> set bs'" by (rule map_of_SomeD)
  with s x show "x \<in> (\<Union>(h, ts) \<in> set bs'. set ts)" by auto
qed

lemma same_contents_union:
  assumes "same_contents bs bs'"
  shows "(\<Union>(h, ts) \<in> set bs. set ts) = (\<Union>(h, ts) \<in> set bs'. set ts)"
proof (rule equalityI)
  show "(\<Union>(h, ts) \<in> set bs. set ts) \<subseteq> (\<Union>(h, ts) \<in> set bs'. set ts)"
    using assms by (intro same_contents_subset) (simp_all add: same_contents_def)
  show "(\<Union>(h, ts) \<in> set bs'. set ts) \<subseteq> (\<Union>(h, ts) \<in> set bs. set ts)"
    using assms by (intro same_contents_subset) (simp_all add: same_contents_def)
qed

lemma sort_key_unique:
  assumes dx: "distinct xs" and dy: "distinct ys" and s: "set xs = set ys"
    and inj: "inj_on f (set xs)"
  shows "sort_key f xs = sort_key f ys"
proof -
  have "map f (sort_key f xs) = map f (sort_key f ys)"
  proof (rule sorted_distinct_set_unique)
    show "sorted (map f (sort_key f xs))" by (rule sorted_sort_key)
    show "sorted (map f (sort_key f ys))" by (rule sorted_sort_key)
    show "distinct (map f (sort_key f xs))"
      using dx inj by (simp add: distinct_map)
    show "distinct (map f (sort_key f ys))"
      using dy inj s by (simp add: distinct_map)
    show "set (map f (sort_key f xs)) = set (map f (sort_key f ys))"
      using s by simp
  qed
  moreover have "inj_on f (set (sort_key f xs) \<union> set (sort_key f ys))"
    using inj s by simp
  ultimately show ?thesis by (simp add: inj_on_map_eq_map)
qed

lemma block_union_unique:
  assumes u: "(\<Union>(h, ts) \<in> set bs. set ts) = (\<Union>(h, ts) \<in> set bs'. set ts)"
    and inj: "inj_on Hash (\<Union>(h, ts) \<in> set bs. set ts)"
  shows "block_union bs = block_union bs'"
proof -
  have s1: "set (remdups (concat (map snd bs))) = (\<Union>(h, ts) \<in> set bs. set ts)" by auto
  have s2: "set (remdups (concat (map snd bs'))) = (\<Union>(h, ts) \<in> set bs'. set ts)" by auto
  show ?thesis
    unfolding block_union_def
  proof (rule sort_key_unique)
    show "distinct (remdups (concat (map snd bs)))" by simp
    show "distinct (remdups (concat (map snd bs')))" by simp
    show "set (remdups (concat (map snd bs))) = set (remdups (concat (map snd bs')))"
      unfolding s1 s2 by (rule u)
    show "inj_on Hash (set (remdups (concat (map snd bs))))"
      unfolding s1 by (rule inj)
  qed
qed

text \<open>
  Claim C9. \<^verbatim>\<open>NewBlock\<close> and \<^verbatim>\<open>NewBlockWithOptions\<close> return the same block for two
  blocking sets of equal contents and equal options, whatever the order in which
  the map is ranged over and whatever the order of the transactions in each value:
  the selection under \<^verbatim>\<open>TxLimit\<close> and \<^verbatim>\<open>MaxBlockSize\<close> is a function of the contents and
  the options alone. The hash identifies the transaction: no two transactions of the
  blocking set share a hash. (Two calls on one and the same argument are equal as
  the model is a function.)
\<close>

theorem NewBlock_deterministic:
  "same_contents bs bs' \<Longrightarrow> inj_on Hash (\<Union>(h, ts) \<in> set bs. set ts) \<Longrightarrow>
     NewBlockWithOptions bs opts = NewBlockWithOptions bs' opts \<and> NewBlock bs = NewBlock bs'"
proof -
  assume c: "same_contents bs bs'" and inj: "inj_on Hash (\<Union>(h, ts) \<in> set bs. set ts)"
  have "block_union bs = block_union bs'"
    by (rule block_union_unique [OF same_contents_union [OF c] inj])
  then show ?thesis by (simp add: NewBlockWithOptions_def NewBlock_def)
qed

lemma newblock_sets_same: "same_contents newblock_set newblock_set'"
  unfolding same_contents_def
proof (intro conjI allI)
  show "distinct (map fst newblock_set)"
    by (simp add: newblock_set_def scenario_defs)
  show "distinct (map fst newblock_set')"
    by (simp add: newblock_set'_def scenario_defs)
  fix h
  show "map_option set (map_of newblock_set h) = map_option set (map_of newblock_set' h)"
    by (simp add: newblock_set_def newblock_set'_def scenario_defs insert_commute)
qed

lemma newblock_set_inj: "inj_on Hash (\<Union>(h, ts) \<in> set newblock_set. set ts)"
  by (simp add: newblock_set_def scenario_defs)

text \<open>
  The theorem at the blocking set of \<^verbatim>\<open>TestBlockingSet/NewBlock\<close> and the same map with
  its entries and its values in another order: with \<^verbatim>\<open>TxLimit\<close> 3 both give the same
  three transactions, and \<^verbatim>\<open>NewBlock\<close> gives the same four.
\<close>

theorem NewBlock_deterministic_witness:
  "same_contents newblock_set newblock_set'
   \<and> newblock_set \<noteq> newblock_set'
   \<and> inj_on Hash (\<Union>(h, ts) \<in> set newblock_set. set ts)
   \<and> NewBlockWithOptions newblock_set' \<lparr>TxLimit = 3, MaxBlockSize = 0\<rparr>
       = NewBlockWithOptions newblock_set \<lparr>TxLimit = 3, MaxBlockSize = 0\<rparr>
   \<and> Txs (NewBlockWithOptions newblock_set' \<lparr>TxLimit = 3, MaxBlockSize = 0\<rparr>)
       = [testTx0, testTx1, testTx3]
   \<and> Txs (NewBlock newblock_set') = [testTx0, testTx1, testTx3, testTx4]"
proof -
  note T = NewBlock_deterministic [OF newblock_sets_same newblock_set_inj]
  have ne: "newblock_set \<noteq> newblock_set'"
    by (simp add: newblock_set_def newblock_set'_def scenario_defs)
  have a: "Txs (NewBlockWithOptions newblock_set \<lparr>TxLimit = 3, MaxBlockSize = 0\<rparr>)
       = [testTx0, testTx1, testTx3]"
    by (simp add: NewBlockWithOptions_def newblock_set_union)
  have b: "Txs (NewBlock newblock_set) = [testTx0, testTx1, testTx3, testTx4]"
    by (simp add: NewBlock_def NewBlockWithOptions_def newblock_set_union)
  show ?thesis
    using T [of "\<lparr>TxLimit = 3, MaxBlockSize = 0\<rparr>"] newblock_sets_same newblock_set_inj ne a b
    by simp
qed

end
